theory Spec2Isabelle
  imports Complex_Main "HOL-Library.Multiset" "HOL-Library.Product_Lexorder"
    "HOL-Library.List_Lexorder" "HOL-Library.Char_ord"
begin

section \<open>Characters and the regular expressions of the cleaner\<close>

text \<open>
  A Python \<^verbatim>\<open>str\<close> is a sequence of code points. The model works on \<^typ>\<open>char\<close>,
  read as the code points U+0000 to U+00FF, and gives each character class the members
  that Python's \<^verbatim>\<open>re\<close> (on \<^verbatim>\<open>str\<close> patterns) and \<^verbatim>\<open>str\<close> methods give it in that range.
  Strings with code points above U+00FF are outside the model. The classes are named
  after the operation of the source that defines them, not after a Unicode property:
  what \<^verbatim>\<open>\d\<close> matches, what \<^verbatim>\<open>lower()\<close> changes.
\<close>

definition code :: "char \<Rightarrow> nat" where
  "code c = of_char c"

text \<open>
  \<^verbatim>\<open>\s\<close> and the characters \<^verbatim>\<open>str.strip()\<close> removes: tab to carriage return,
  the four separators U+001C to U+001F, space, U+0085 and U+00A0.
\<close>

definition is_space :: "char \<Rightarrow> bool" where
  "is_space c = ((9 \<le> code c \<and> code c \<le> 13) \<or> (28 \<le> code c \<and> code c \<le> 32)
                 \<or> code c = 133 \<or> code c = 160)"

text \<open>
  \<^verbatim>\<open>\d\<close>: the decimal digits, \<^verbatim>\<open>0\<close> to \<^verbatim>\<open>9\<close> in this range. The superscript digits
  are no decimal digits: \<^verbatim>\<open>\d\<close> does not match them.
\<close>

definition is_decimal :: "char \<Rightarrow> bool" where
  "is_decimal c = (48 \<le> code c \<and> code c \<le> 57)"

text \<open>
  \<^verbatim>\<open>str.isdigit()\<close> on one character: the decimal digits and the superscript digits
  U+00B2, U+00B3 and U+00B9.
\<close>

definition str_isdigit :: "char \<Rightarrow> bool" where
  "str_isdigit c = ((48 \<le> code c \<and> code c \<le> 57) \<or> code c = 178 \<or> code c = 179
                    \<or> code c = 185)"

text \<open>
  The characters \<^verbatim>\<open>str.lower()\<close> changes: \<^verbatim>\<open>A\<close> to \<^verbatim>\<open>Z\<close>, and U+00C0 to U+00DE
  without the multiplication sign U+00D7. Each moves up by 32. In this range they are
  the upper-case letters; that is not so above U+00FF, where some upper-case letters
  (U+03D2 is one) have no lower-case form and \<^verbatim>\<open>lower()\<close> leaves them as they are.
\<close>

definition lower_changes :: "char \<Rightarrow> bool" where
  "lower_changes c = ((65 \<le> code c \<and> code c \<le> 90) \<or> (192 \<le> code c \<and> code c \<le> 222 \<and> code c \<noteq> 215))"

definition lower_char :: "char \<Rightarrow> char" where
  "lower_char c = (if lower_changes c then char_of (code c + 32) else c)"

text \<open>
  \<^verbatim>\<open>str.lower()\<close> on a string of this range: character by character, the length
  unchanged.
\<close>

definition lower :: "string \<Rightarrow> string" where
  "lower s = map lower_char s"

text \<open>
  \<^verbatim>\<open>\w\<close>: the underscore and every character whose \<^verbatim>\<open>isalnum()\<close> is true: ASCII
  letters and digits, the letters U+00AA, U+00B5, U+00BA, U+00C0 to U+00FF without
  U+00D7 and U+00F7, the superscripts U+00B2, U+00B3, U+00B9 and the fractions U+00BC
  to U+00BE.
\<close>

definition is_word :: "char \<Rightarrow> bool" where
  "is_word c = ((48 \<le> code c \<and> code c \<le> 57) \<or> (65 \<le> code c \<and> code c \<le> 90)
                \<or> code c = 95 \<or> (97 \<le> code c \<and> code c \<le> 122)
                \<or> code c = 170 \<or> code c = 178 \<or> code c = 179 \<or> code c = 181
                \<or> code c = 185 \<or> code c = 186 \<or> (188 \<le> code c \<and> code c \<le> 190)
                \<or> (192 \<le> code c \<and> code c \<noteq> 215 \<and> code c \<noteq> 247))"

text \<open>
  \<^verbatim>\<open>string.punctuation\<close>, 32 ASCII characters: U+0021 to U+002F, U+003A to U+0040,
  U+005B to U+0060 and U+007B to U+007E.
\<close>

definition is_punct :: "char \<Rightarrow> bool" where
  "is_punct c = ((33 \<le> code c \<and> code c \<le> 47) \<or> (58 \<le> code c \<and> code c \<le> 64)
                 \<or> (91 \<le> code c \<and> code c \<le> 96) \<or> (123 \<le> code c \<and> code c \<le> 126))"

text \<open>
  \<^verbatim>\<open>re.sub(pattern, repl, text)\<close>: scan left to right; where the pattern matches at
  the current position, emit the replacement of the matched text and go on after the
  match; elsewhere copy one character. The pattern is given as a function that returns
  the length of its match at the start of a string. Every pattern of the cleaner
  matches at least one character, so the empty match has no case of its own.
\<close>

fun re_sub :: "(string \<Rightarrow> nat option) \<Rightarrow> (string \<Rightarrow> string) \<Rightarrow> string \<Rightarrow> string" where
  "re_sub m repl [] = []"
| "re_sub m repl (c # cs) =
     (case m (c # cs) of
        Some (Suc n) \<Rightarrow> repl (take (Suc n) (c # cs)) @ re_sub m repl (drop n cs)
      | _ \<Rightarrow> c # re_sub m repl cs)"

text \<open>A literal followed by \<^verbatim>\<open>\S+\<close>: the literal, then the longest run of non-space
  characters, which must not be empty.\<close>

definition lit_nonspace :: "string \<Rightarrow> string \<Rightarrow> nat option" where
  "lit_nonspace l s =
     (let run = length (takeWhile (\<lambda>c. \<not> is_space c) (drop (length l) s))
      in if take (length l) s = l \<and> 0 < run then Some (length l + run) else None)"

text \<open>\<^verbatim>\<open>http\S+|www\S+|https\S+\<close>: the alternatives are tried in this order.\<close>

definition url_match :: "string \<Rightarrow> nat option" where
  "url_match s =
     (case lit_nonspace ''http'' s of Some n \<Rightarrow> Some n
      | None \<Rightarrow> (case lit_nonspace ''www'' s of Some n \<Rightarrow> Some n
                 | None \<Rightarrow> lit_nonspace ''https'' s))"

text \<open>\<^verbatim>\<open>@\w+\<close>.\<close>

definition mention_match :: "string \<Rightarrow> nat option" where
  "mention_match s =
     (case s of
        c # r \<Rightarrow> (let run = length (takeWhile is_word r)
                  in if c = CHR ''@'' \<and> 0 < run then Some (1 + run) else None)
      | [] \<Rightarrow> None)"

text \<open>\<^verbatim>\<open>#([^\s]+)\<close>, replaced by its group: the match without the \<^verbatim>\<open>#\<close>.\<close>

definition hashtag_match :: "string \<Rightarrow> nat option" where
  "hashtag_match s =
     (case s of
        c # r \<Rightarrow> (let run = length (takeWhile (\<lambda>c. \<not> is_space c) r)
                  in if c = CHR ''#'' \<and> 0 < run then Some (1 + run) else None)
      | [] \<Rightarrow> None)"

text \<open>\<^verbatim>\<open>\d+\<close> and \<^verbatim>\<open>\s+\<close>: the longest run of the class, not empty.\<close>

definition run_match :: "(char \<Rightarrow> bool) \<Rightarrow> string \<Rightarrow> nat option" where
  "run_match cls s =
     (let run = length (takeWhile cls s) in if 0 < run then Some run else None)"

text \<open>\<^verbatim>\<open>str.strip()\<close>: remove the whitespace at both ends.\<close>

definition strip :: "string \<Rightarrow> string" where
  "strip s = rev (dropWhile is_space (rev (dropWhile is_space s)))"


section \<open>NLPProcessor\<close>

text \<open>
  An argument that the source annotates as \<^verbatim>\<open>str\<close> but tests with
  \<^verbatim>\<open>isinstance\<close>: a string, \<^verbatim>\<open>None\<close>, or another object, of which only the truth
  value matters (\<open>None\<close> when its truth test raises, as an array's does).
\<close>

datatype pyval = PyStr string | PyNone | PyObj "bool option"

text \<open>\<^verbatim>\<open>not text or not isinstance(text, str)\<close>; \<open>None\<close> when evaluating it raises.\<close>

fun not_text :: "pyval \<Rightarrow> bool option" where
  "not_text (PyStr s) = Some (s = [])"
| "not_text PyNone = Some True"
| "not_text (PyObj None) = None"
| "not_text (PyObj (Some b)) = Some True"

text \<open>
  The body of \<^verbatim>\<open>clean_text\<close> on a string, step by step as in the source. No step
  raises on a string, so the \<^verbatim>\<open>except\<close> branch has no case here.
\<close>

definition clean_steps :: "string \<Rightarrow> string" where
  "clean_steps text0 =
     (let text1 = lower text0;
          text2 = re_sub url_match (\<lambda>_. []) text1;
          text3 = re_sub mention_match (\<lambda>_. []) text2;
          text4 = re_sub hashtag_match tl text3;
          text5 = filter (\<lambda>c. \<not> is_punct c) text4;
          text6 = re_sub (run_match is_decimal) (\<lambda>_. []) text5;
          text7 = strip (re_sub (run_match is_space) (\<lambda>_. '' '') text6)
      in text7)"

text \<open>
  \<^verbatim>\<open>clean_text\<close>. The guard stands before the \<^verbatim>\<open>try\<close>, so an argument whose truth
  test raises makes the call raise: the result \<open>None\<close>.
\<close>

fun clean_text :: "pyval \<Rightarrow> string option" where
  "clean_text (PyStr s) = (if s = [] then Some [] else Some (clean_steps s))"
| "clean_text v = (case not_text v of None \<Rightarrow> None | Some _ \<Rightarrow> Some [])"


text \<open>
  The processor's components that come from third-party libraries are fields:
  the NLTK stop-word set, the WordNet lemmatizer (\<open>None\<close> when \<^verbatim>\<open>__init__\<close> fell
  back to its minimal components; a lookup yields \<open>None\<close> when it raises), NLTK's
  \<^verbatim>\<open>word_tokenize\<close> (\<open>None\<close> when it raises), and the sentiment model: the row of
  class probabilities that tokenizer, model and softmax produce for a text (\<open>None\<close>
  when any of them raises, or when the model was never loaded).
\<close>

record nlp_processor =
  stop_words :: "string set"
  lemmatizer :: "(string \<Rightarrow> string option) option"
  word_tokenize :: "string \<Rightarrow> string list option"
  sentiment_probabilities :: "string \<Rightarrow> real list option"

text \<open>\<^verbatim>\<open>tokenize_text\<close>, \<^verbatim>\<open>remove_stopwords\<close>, \<^verbatim>\<open>lemmatize_tokens\<close>: each catches
  what its library call raises.\<close>

definition tokenize_text :: "nlp_processor \<Rightarrow> string \<Rightarrow> string list" where
  "tokenize_text p text =
     (if text = [] then []
      else (case word_tokenize p text of Some toks \<Rightarrow> toks | None \<Rightarrow> []))"

definition remove_stopwords :: "nlp_processor \<Rightarrow> string list \<Rightarrow> string list" where
  "remove_stopwords p toks =
     (if toks = [] then [] else filter (\<lambda>token. token \<notin> stop_words p) toks)"

definition lemmatize_tokens :: "nlp_processor \<Rightarrow> string list \<Rightarrow> string list" where
  "lemmatize_tokens p toks =
     (case lemmatizer p of
        None \<Rightarrow> toks
      | Some lemmatize \<Rightarrow>
          if toks = [] then toks
          else (case those (map lemmatize toks) of Some lemmas \<Rightarrow> lemmas | None \<Rightarrow> toks))"

text \<open>\<^verbatim>\<open>" ".join(tokens)\<close>.\<close>

fun join_space :: "string list \<Rightarrow> string" where
  "join_space [] = []"
| "join_space [w] = w"
| "join_space (w # v # ws) = w @ '' '' @ join_space (v # ws)"

text \<open>
  The dictionary \<^verbatim>\<open>preprocess_text\<close> returns. The key \<^verbatim>\<open>processed_text\<close> is set last,
  so it is absent (\<open>None\<close>) when the pipeline raised before.
\<close>

record preprocessed =
  original_text :: pyval
  cleaned_text :: string
  tokens :: "string list"
  tokens_no_stopwords :: "string list"
  lemmatized_tokens :: "string list"
  processed_text :: "string option"

text \<open>
  \<^verbatim>\<open>preprocess_text\<close>. The only call of the \<^verbatim>\<open>try\<close> block that can raise is
  \<^verbatim>\<open>clean_text\<close>, on an argument whose truth test raises; the \<^verbatim>\<open>except\<close> branch logs
  and the initial result is returned.
\<close>

definition preprocess_text :: "nlp_processor \<Rightarrow> pyval \<Rightarrow> preprocessed" where
  "preprocess_text p text =
     (let result = \<lparr>original_text = text, cleaned_text = [], tokens = [],
                     tokens_no_stopwords = [], lemmatized_tokens = [], processed_text = None\<rparr>
      in case clean_text text of
           None \<Rightarrow> result
         | Some cleaned \<Rightarrow>
             (let toks = tokenize_text p cleaned;
                  no_stop = remove_stopwords p toks;
                  lemmas = lemmatize_tokens p no_stop
              in result\<lparr>cleaned_text := cleaned, tokens := toks,
                        tokens_no_stopwords := no_stop, lemmatized_tokens := lemmas,
                        processed_text := Some (join_space lemmas)\<rparr>))"

text \<open>
  \<^verbatim>\<open>word_freq[token] = word_freq.get(token, 0) + 1\<close> on a dictionary kept as the list
  of its items in insertion order: a known key keeps its place, a new key goes last.
\<close>

fun count_token :: "(string \<times> int) list \<Rightarrow> string \<Rightarrow> (string \<times> int) list" where
  "count_token [] token = [(token, 1)]"
| "count_token ((k, v) # items) token =
     (if k = token then (k, v + 1) # items else (k, v) # count_token items token)"

text \<open>The slice \<^verbatim>\<open>xs[:n]\<close>: a negative \<open>n\<close> counts from the end.\<close>

definition slice_to :: "int \<Rightarrow> 'a list \<Rightarrow> 'a list" where
  "slice_to n xs = (if 0 \<le> n then take (nat n) xs else take (length xs - nat (- n)) xs)"

text \<open>
  \<^verbatim>\<open>extract_keywords\<close>. The guard stands before the \<^verbatim>\<open>try\<close> (\<open>None\<close>: it raised).
  \<^verbatim>\<open>sorted(word_freq.items(), key=lambda x: x[1], reverse=True)\<close> is a stable sort by
  descending frequency: \<^const>\<open>sort_key\<close> is stable, and the key is the negated frequency.
  The result is the list of (keyword, frequency) pairs.
\<close>

definition extract_keywords ::
  "nlp_processor \<Rightarrow> pyval \<Rightarrow> int \<Rightarrow> (string \<times> int) list option" where
  "extract_keywords p text top_n =
     (case not_text text of
        None \<Rightarrow> None
      | Some True \<Rightarrow> Some []
      | Some False \<Rightarrow>
          (let preprocessed = preprocess_text p text;
               word_freq = foldl (\<lambda>d token. if length token > 2 then count_token d token else d)
                             [] (lemmatized_tokens preprocessed);
               sorted_words = sort_key (\<lambda>x. - snd x) word_freq
           in Some (slice_to top_n sorted_words)))"

text \<open>The dictionary \<^verbatim>\<open>analyze_sentiment\<close> returns.\<close>

record sentiment =
  positive :: real
  negative :: real
  label :: string

definition default_sentiment :: sentiment where
  "default_sentiment = \<lparr>positive = 0, negative = 1, label = ''negative''\<rparr>"

text \<open>
  \<^verbatim>\<open>analyze_sentiment\<close>. The guard stands before the \<^verbatim>\<open>try\<close> (\<open>None\<close>: it raised).
  Inside the \<^verbatim>\<open>try\<close>, a failure of the model and an index out of the row's range
  both end in the \<^verbatim>\<open>except\<close> branch.
\<close>

definition analyze_sentiment :: "nlp_processor \<Rightarrow> pyval \<Rightarrow> sentiment option" where
  "analyze_sentiment p text =
     (case not_text text of
        None \<Rightarrow> None
      | Some True \<Rightarrow> Some default_sentiment
      | Some False \<Rightarrow>
          (case text of
             PyStr s \<Rightarrow>
               (case sentiment_probabilities p s of
                  None \<Rightarrow> Some default_sentiment
                | Some probabilities \<Rightarrow>
                    if length probabilities < 2 then Some default_sentiment
                    else Some \<lparr>positive = probabilities ! 1, negative = probabilities ! 0,
                               label = (if probabilities ! 1 > probabilities ! 0
                                        then ''positive'' else ''negative'')\<rparr>)
           | _ \<Rightarrow> Some default_sentiment))"


section \<open>HazardDetector\<close>

text \<open>
  The pattern tables of \<^verbatim>\<open>nlp_analytics/hazard_detector.py\<close> use a small part of the
  regular-expression language: literal text, \<^verbatim>\<open>\s*\<close>, an optional literal
  (\<^verbatim>\<open>(ing)?\<close>, \<^verbatim>\<open>s?\<close>) and a choice of two literals (\<^verbatim>\<open>(e|ion)\<close>). A pattern is the
  sequence of its items.
\<close>

datatype item = Lit string | Spaces | Opt string | Alt string string

type_synonym pattern = "item list"

text \<open>The pattern matches some prefix of the string (\<^verbatim>\<open>re.match\<close>).\<close>

fun match_here :: "pattern \<Rightarrow> string \<Rightarrow> bool" where
  "match_here [] s = True"
| "match_here (Lit l # r) s = (take (length l) s = l \<and> match_here r (drop (length l) s))"
| "match_here (Opt l # r) s =
     ((take (length l) s = l \<and> match_here r (drop (length l) s)) \<or> match_here r s)"
| "match_here (Alt a b # r) s =
     ((take (length a) s = a \<and> match_here r (drop (length a) s))
      \<or> (take (length b) s = b \<and> match_here r (drop (length b) s)))"
| "match_here (Spaces # r) [] = match_here r []"
| "match_here (Spaces # r) (c # cs) =
     (match_here r (c # cs) \<or> (is_space c \<and> match_here (Spaces # r) cs))"

text \<open>The pattern matches somewhere in the string (\<^verbatim>\<open>re.search\<close>).\<close>

fun search :: "pattern \<Rightarrow> string \<Rightarrow> bool" where
  "search p [] = match_here p []"
| "search p (c # cs) = (match_here p (c # cs) \<or> search p cs)"

text \<open>
  Modelled from the spec: the code that applies the tables to a text is missing from the
  source. The spec (4.3): each hazard type maps to case-insensitive regular-expression
  patterns. The literals of the tables are lower-case ASCII, and lower-casing changes
  neither a whitespace character nor any character into an ASCII letter other than its
  own upper-case form, so a case-insensitive search is a search in the lower-cased text.
\<close>

definition matches :: "pattern \<Rightarrow> string \<Rightarrow> bool" where
  "matches p text = search p (lower text)"

datatype hazard = flood | storm_surge | tsunami | high_waves | erosion | marine_pollution
  | harmful_algal_bloom | coastal_storm

datatype severity = High | Medium | Low | Unknown

text \<open>\<^verbatim>\<open>self.hazard_patterns\<close>, in the order of the source.\<close>

definition hazard_patterns :: "(hazard \<times> pattern list) list" where
  "hazard_patterns =
   [(flood,
      [[Lit ''flood'', Opt ''ing''],
       [Lit ''water level'', Opt ''s'', Lit '' rise''],
       [Lit ''submerged''],
       [Lit ''inundat'', Alt ''e'' ''ion'']]),
    (storm_surge,
      [[Lit ''storm'', Spaces, Lit ''surge''],
       [Lit ''surge'', Spaces, Lit ''warning''],
       [Lit ''coastal'', Spaces, Lit ''surge''],
       [Lit ''sea'', Spaces, Lit ''level'', Spaces, Lit ''rise'']]),
    (tsunami,
      [[Lit ''tsunami''],
       [Lit ''tidal'', Spaces, Lit ''wave''],
       [Lit ''seismic'', Spaces, Lit ''sea'', Spaces, Lit ''wave'']]),
    (high_waves,
      [[Lit ''high'', Spaces, Lit ''wave'', Opt ''s''],
       [Lit ''large'', Spaces, Lit ''wave'', Opt ''s''],
       [Lit ''dangerous'', Spaces, Lit ''wave'', Opt ''s''],
       [Lit ''rough'', Spaces, Lit ''sea'', Opt ''s''],
       [Lit ''wave'', Spaces, Lit ''height'']]),
    (erosion,
      [[Lit ''erosion''],
       [Lit ''coastal'', Spaces, Lit ''erosion''],
       [Lit ''beach'', Spaces, Lit ''loss''],
       [Lit ''shoreline'', Spaces, Lit ''retreat'']]),
    (marine_pollution,
      [[Lit ''oil'', Spaces, Lit ''spill''],
       [Lit ''pollut'', Alt ''e'' ''ion''],
       [Lit ''contaminat'', Alt ''e'' ''ion''],
       [Lit ''marine'', Spaces, Lit ''debris''],
       [Lit ''plastic'', Spaces, Lit ''waste'']]),
    (harmful_algal_bloom,
      [[Lit ''harmful'', Spaces, Lit ''algal'', Spaces, Lit ''bloom''],
       [Lit ''red'', Spaces, Lit ''tide''],
       [Lit ''blue'', Spaces, Lit ''tide''],
       [Lit ''algal'', Spaces, Lit ''bloom'']]),
    (coastal_storm,
      [[Lit ''coastal'', Spaces, Lit ''storm''],
       [Lit ''tropical'', Spaces, Lit ''storm''],
       [Lit ''hurricane''],
       [Lit ''typhoon''],
       [Lit ''cyclone'']])]"

text \<open>\<^verbatim>\<open>self.severity_indicators\<close>, in the order of the source.\<close>

definition severity_indicators :: "(severity \<times> pattern list) list" where
  "severity_indicators =
   [(High, map (\<lambda>w. [Lit w])
      [''major'', ''severe'', ''catastrophic'', ''dangerous'', ''urgent'', ''emergency'',
       ''critical'', ''extreme'', ''life-threatening'', ''evacuation'', ''damage'',
       ''destroy'', ''collapse'', ''injured'', ''casualty'', ''fatal'']),
    (Medium, map (\<lambda>w. [Lit w])
      [''moderate'', ''significant'', ''noticeable'', ''concerning'', ''warning'', ''alert'',
       ''precautionary'', ''potential'', ''possible'', ''expected'']),
    (Low, map (\<lambda>w. [Lit w])
      [''minor'', ''slight'', ''mild'', ''small'', ''observation'', ''monitoring'', ''update'',
       ''information''])]"

text \<open>The keys of a table whose pattern list has a pattern that matches the text.\<close>

definition matching_keys :: "('k \<times> pattern list) list \<Rightarrow> string \<Rightarrow> 'k list" where
  "matching_keys table text =
     map fst (filter (\<lambda>(k, patterns). list_ex (\<lambda>p. matches p text) patterns) table)"

text \<open>
  Modelled from the spec: the source file ends inside \<^verbatim>\<open>__init__\<close>, after the tables;
  the method that resolves the severity of a text is missing. The spec (4.3): scan the
  text for indicator matches at all three tiers; if \<^verbatim>\<open>high\<close> indicators are present the
  severity is \<^verbatim>\<open>high\<close>, else if \<^verbatim>\<open>medium\<close> are present \<^verbatim>\<open>medium\<close>, else if \<^verbatim>\<open>low\<close> are
  present \<^verbatim>\<open>low\<close>, else \<^verbatim>\<open>unknown\<close>. The indicators are searched like the hazard
  patterns, without regard to case.
\<close>

definition resolve_severity :: "string \<Rightarrow> severity" where
  "resolve_severity text =
     (let present = matching_keys severity_indicators text
      in if High \<in> set present then High
         else if Medium \<in> set present then Medium
         else if Low \<in> set present then Low
         else Unknown)"

record hazard_classification =
  hazards :: "hazard list"
  severity :: severity

text \<open>
  Modelled from the spec: the classifying method is missing from the source as well.
  The spec (4.3): \<^verbatim>\<open>classify(raw_text, normalized, signals)\<close> matches the patterns of
  every hazard type against the raw text, not the lemmatized form, and tags all types
  that match; the severity is resolved as above, also when no hazard type matches. Only
  the tags and the tier are modelled, not the matched spans, and \<^verbatim>\<open>signals\<close>, which the
  spec gives no use in classification, is left out.
\<close>

definition classify :: "string \<Rightarrow> preprocessed \<Rightarrow> hazard_classification" where
  "classify raw_text normalized =
     \<lparr>hazards = matching_keys hazard_patterns raw_text,
      severity = resolve_severity raw_text\<rparr>"


section \<open>Prioritizer\<close>

text \<open>
  Modelled from the spec: the prioritizer is not in the source, and neither is the type
  of its reports. The spec (3, 4.4) gives a report a unique string \<^verbatim>\<open>id\<close>, a
  \<^verbatim>\<open>timestamp\<close> (an instant) and a numeric \<^verbatim>\<open>priority\<close>; these are the fields the
  ordering reads, and further fields ride along in the record's extension. The
  timestamp is the instant as a number, later instants larger; identifiers compare as
  Python strings do, by code points.
\<close>

record report =
  report_id :: string
  priority :: real
  timestamp :: int

text \<open>The position of a report in the order: a smaller key comes first.\<close>

definition rank_key :: "'a report_scheme \<Rightarrow> real \<times> int \<times> string" where
  "rank_key r = (- priority r, - timestamp r, report_id r)"

text \<open>
  Modelled from the spec: \<^verbatim>\<open>prioritize_reports\<close> is called by the dashboard, but its
  definition is in the part of \<^verbatim>\<open>hazard_detector.py\<close> that is missing. The spec (4.4):
  a stable sort, reports ordered by descending priority; ties broken by most recent
  timestamp first, then by report id ascending.
\<close>

definition prioritize :: "'a report_scheme list \<Rightarrow> 'a report_scheme list" where
  "prioritize batch = sort_key rank_key batch"

text \<open>The order in the words of the claim: \<open>a\<close> may stand before \<open>b\<close>.\<close>

definition ranks_before :: "'a report_scheme \<Rightarrow> 'a report_scheme \<Rightarrow> bool" where
  "ranks_before a b =
     (priority a > priority b
      \<or> (priority a = priority b \<and> timestamp a > timestamp b)
      \<or> (priority a = priority b \<and> timestamp a = timestamp b \<and> report_id a \<le> report_id b))"


section \<open>Dashboard: the rolling history of prioritized reports\<close>

text \<open>
  \<^verbatim>\<open>monitoring/dashboard.py\<close>, class \<^verbatim>\<open>OceanHazardDashboard\<close>. Only the two
  data fields that \<^verbatim>\<open>collect_and_analyze_data\<close> and \<^verbatim>\<open>_generate_mock_data\<close>
  write are kept; the report type is left open.
\<close>

record 'r dashboard =
  current_hazards :: "'r list"
  hazard_history :: "'r list"

text \<open>\<^verbatim>\<open>__init__\<close>: both lists start empty.\<close>

definition init_dashboard :: "'r dashboard" where
  "init_dashboard = \<lparr>current_hazards = [], hazard_history = []\<rparr>"

text \<open>
  \<^verbatim>\<open>if len(self.hazard_history) > 1000: self.hazard_history = self.hazard_history[-1000:]\<close>.
  The slice \<^verbatim>\<open>h[-1000:]\<close> of a list longer than 1000 drops its first \<open>len - 1000\<close> entries.
\<close>

definition keep_history :: "'r list \<Rightarrow> 'r list" where
  "keep_history h = (if length h > 1000 then drop (length h - 1000) h else h)"

text \<open>
  \<^verbatim>\<open>_generate_mock_data\<close>: the five mock records (their timestamps come from the clock)
  are the argument.
\<close>

definition generate_mock_data :: "'r list \<Rightarrow> 'r dashboard \<Rightarrow> 'r dashboard" where
  "generate_mock_data mock_data d =
     d\<lparr>current_hazards := mock_data,
       hazard_history := keep_history (hazard_history d @ mock_data)\<rparr>"

text \<open>
  One run of \<^verbatim>\<open>collect_and_analyze_data\<close>. What the collaborators did in this run is
  the argument: no collector or detector configured (the mock branch), the pipeline raised
  before the assignments (the \<^verbatim>\<open>except\<close> branch logs and leaves the state alone), or
  the pipeline returned the prioritized reports.
\<close>

datatype 'r run = NoPipeline "'r list" | Raised | Prioritized "'r list"

fun collect_and_analyze_data :: "'r run \<Rightarrow> 'r dashboard \<Rightarrow> 'r dashboard" where
  "collect_and_analyze_data (Prioritized prioritized_reports) d =
     d\<lparr>current_hazards := prioritized_reports,
       hazard_history := keep_history (hazard_history d @ prioritized_reports)\<rparr>"
| "collect_and_analyze_data (NoPipeline mock_data) d = generate_mock_data mock_data d"
| "collect_and_analyze_data Raised d = d"

text \<open>The reports a run appends to the history.\<close>

fun appended :: "'r run \<Rightarrow> 'r list" where
  "appended (Prioritized rs) = rs"
| "appended (NoPipeline rs) = rs"
| "appended Raised = []"

text \<open>The dashboard after a sequence of runs, oldest run first.\<close>

definition after_runs :: "'r run list \<Rightarrow> 'r dashboard" where
  "after_runs runs = foldl (\<lambda>d r. collect_and_analyze_data r d) init_dashboard runs"


section \<open>Predicates used in the statements\<close>

text \<open>
  \<^verbatim>\<open>re.search(pattern, text) is not None\<close> for a pattern given as above: the pattern
  matches at some position of the text.
\<close>

fun re_search :: "(string \<Rightarrow> nat option) \<Rightarrow> string \<Rightarrow> bool" where
  "re_search m [] = False"
| "re_search m (c # cs) = (m (c # cs) \<noteq> None \<or> re_search m cs)"

text \<open>Every whitespace character is a space, and no two of them are adjacent.\<close>

fun single_spaced :: "string \<Rightarrow> bool" where
  "single_spaced [] = True"
| "single_spaced [c] = (if is_space c then c = CHR '' '' else True)"
| "single_spaced (a # b # r) =
     ((if is_space a then a = CHR '' '' \<and> \<not> is_space b else True) \<and> single_spaced (b # r))"

text \<open>
  The shape of a cleaned text: no character that \<^verbatim>\<open>lower()\<close> changes, no decimal
  digit, no punctuation character, whitespace only as single spaces, and none at
  either end.
\<close>

definition cleaned :: "string \<Rightarrow> bool" where
  "cleaned y =
     (list_all (\<lambda>c. \<not> lower_changes c \<and> \<not> is_decimal c \<and> \<not> is_punct c) y \<and> single_spaced y
      \<and> (if y = [] then True else \<not> is_space (hd y) \<and> \<not> is_space (last y)))"


text \<open>\<^verbatim>\<open>xs.index(x)\<close> for an element of the list: the position of its first occurrence.\<close>

definition first_index :: "'a list \<Rightarrow> 'a \<Rightarrow> nat" where
  "first_index xs x = length (takeWhile (\<lambda>y. y \<noteq> x) xs)"

text \<open>The distinct elements of a list, in the order of their first occurrence.\<close>

definition firsts :: "'a list \<Rightarrow> 'a list" where
  "firsts xs = rev (remdups (rev xs))"


text \<open>Some indicator of the tier occurs in the text.\<close>

definition indicator_present :: "severity \<Rightarrow> string \<Rightarrow> bool" where
  "indicator_present tier text =
     list_ex (\<lambda>(k, patterns). k = tier \<and> list_ex (\<lambda>p. matches p text) patterns)
       severity_indicators"


section \<open>A processor for the worked examples\<close>

text \<open>
  Stand-ins for the library components, used only to run the functions on concrete
  inputs: a tokenizer that splits at spaces, a lemmatizer with a two-entry dictionary,
  and a sentiment model that fails on one text.
\<close>

fun split_spaces :: "string \<Rightarrow> string \<Rightarrow> string list" where
  "split_spaces w [] = (if w = [] then [] else [w])"
| "split_spaces w (c # cs) =
     (if c = CHR '' '' then (if w = [] then [] else [w]) @ split_spaces [] cs
      else split_spaces (w @ [c]) cs)"

definition example_lemma :: "string \<Rightarrow> string" where
  "example_lemma w = (if w = ''waves'' then ''wave'' else if w = ''floods'' then ''flood'' else w)"

definition example_processor :: nlp_processor where
  "example_processor =
     \<lparr>stop_words = {''the'', ''at'', ''is'', ''are''},
      lemmatizer = Some (\<lambda>w. Some (example_lemma w)),
      word_tokenize = (\<lambda>s. Some (split_spaces [] s)),
      sentiment_probabilities = (\<lambda>s. if s = ''crash'' then None else Some [3 / 4, 1 / 4])\<rparr>"


section \<open>Properties of the cleaner\<close>

text \<open>
  Induction along the scan of \<^const>\<open>re_sub\<close> for a fixed pattern: the scan copies a
  character and goes on with the rest, or consumes a match and goes on after it.
\<close>

lemma re_sub_scan [case_names Nil copy hit]:
  assumes nil: "P []"
    and copy: "\<And>c cs. m (c # cs) = None \<or> m (c # cs) = Some 0 \<Longrightarrow> P cs \<Longrightarrow> P (c # cs)"
    and hit: "\<And>c cs n. m (c # cs) = Some (Suc n) \<Longrightarrow> P (drop n cs) \<Longrightarrow> P (c # cs)"
  shows "P s"
proof (induction s rule: length_induct)
  case (1 s)
  show ?case
  proof (cases s)
    case Nil
    with nil show ?thesis by simp
  next
    case (Cons c cs)
    show ?thesis
    proof (cases "m (c # cs)")
      case None
      moreover have "P cs" using 1 Cons by simp
      ultimately show ?thesis using copy Cons by simp
    next
      case (Some k)
      show ?thesis
      proof (cases k)
        case 0
        moreover have "P cs" using 1 Cons by simp
        ultimately show ?thesis using copy Some Cons by simp
      next
        case (Suc n)
        have "P (drop n cs)" using 1 Cons by simp
        with hit Some Suc Cons show ?thesis by simp
      qed
    qed
  qed
qed

lemma re_sub_copy:
  "m (c # cs) = None \<or> m (c # cs) = Some 0 \<Longrightarrow> re_sub m repl (c # cs) = c # re_sub m repl cs"
  by auto

lemma re_sub_hit:
  "m (c # cs) = Some (Suc n) \<Longrightarrow>
   re_sub m repl (c # cs) = repl (c # take n cs) @ re_sub m repl (drop n cs)"
  by simp

declare re_sub.simps(2) [simp del]

lemma re_sub_pres:
  assumes repl: "\<And>t. \<forall>c\<in>set t. P c \<Longrightarrow> \<forall>c\<in>set (repl t). P c"
  shows "\<forall>c\<in>set s. P c \<Longrightarrow> \<forall>c\<in>set (re_sub m repl s). P c"
proof (induction s rule: re_sub_scan [where m = m])
  case Nil
  then show ?case by simp
next
  case (copy c cs)
  then show ?case by (simp only: re_sub_copy) simp
next
  case (hit c cs n)
  have a: "\<forall>x\<in>set (c # take n cs). P x"
    using hit.prems by (auto dest: in_set_takeD)
  have b: "\<forall>x\<in>set (drop n cs). P x"
    using hit.prems by (auto dest: in_set_dropD)
  from hit.IH [OF b] repl [OF a] show ?case
    by (simp only: re_sub_hit [of m, OF hit.hyps]) auto
qed

lemma re_sub_no_match: "\<not> re_search m s \<Longrightarrow> re_sub m repl s = s"
  by (induction s) (auto simp: re_sub_copy)

lemma re_sub_length:
  assumes repl: "\<And>t. t \<noteq> [] \<Longrightarrow> length (repl t) \<le> length t"
  shows "length (re_sub m repl s) \<le> length s"
proof (induction s rule: re_sub_scan [where m = m])
  case Nil
  then show ?case by simp
next
  case (copy c cs)
  then show ?case by (simp only: re_sub_copy) simp
next
  case (hit c cs n)
  have "length (repl (c # take n cs)) \<le> Suc (min (length cs) n)"
    using repl [of "c # take n cs"] by simp
  moreover have "length (re_sub m repl (drop n cs)) \<le> length cs - n"
    using hit.IH by simp
  ultimately show ?case
    by (simp only: re_sub_hit [of m, OF hit.hyps]) simp
qed

lemma re_sub_delete_shorter:
  assumes pos: "\<And>t. m t \<noteq> Some 0"
  shows "re_search m s \<Longrightarrow> length (re_sub m (\<lambda>_. []) s) < length s"
proof (induction s rule: re_sub_scan [where m = m])
  case Nil
  then show ?case by simp
next
  case (copy c cs)
  then show ?case using pos by (simp only: re_sub_copy) auto
next
  case (hit c cs n)
  have "length (re_sub m (\<lambda>_. []) (drop n cs)) \<le> length cs"
    using re_sub_length [of "\<lambda>_. []" m "drop n cs"] by simp
  then show ?case
    by (simp only: re_sub_hit [of m, OF hit.hyps]) simp
qed


text \<open>Collapsing whitespace and stripping the ends.\<close>

lemma is_space_blank: "is_space (CHR '' '')"
  by (simp add: is_space_def code_def)

lemma single_spaced_nonspace_Cons:
  "\<not> is_space c \<Longrightarrow> single_spaced (c # t) = single_spaced t"
  by (cases t) simp_all

lemma single_spaced_blank_Cons:
  "single_spaced (CHR '' '' # t) = (single_spaced t \<and> (t = [] \<or> \<not> is_space (hd t)))"
  by (cases t) (auto simp: is_space_blank)

lemma single_spaced_appendD:
  "single_spaced (xs @ ys) \<Longrightarrow> single_spaced xs \<and> single_spaced ys"
proof (induction xs rule: single_spaced.induct)
  case 1
  then show ?case by simp
next
  case (2 c)
  then show ?case by (cases ys) (auto split: if_splits)
next
  case (3 a b r)
  then show ?case by (auto split: if_splits)
qed

lemma run_match_nonspace: "\<not> cls c \<Longrightarrow> run_match cls (c # cs) = None"
  by (simp add: run_match_def)

lemma run_match_hit:
  "cls c \<Longrightarrow> run_match cls (c # cs) = Some (Suc (length (takeWhile cls cs)))"
  by (simp add: run_match_def)

lemma collapse_nonspace:
  "\<not> is_space c \<Longrightarrow>
   re_sub (run_match is_space) repl (c # cs) = c # re_sub (run_match is_space) repl cs"
  by (simp add: run_match_nonspace re_sub_copy)

lemma collapse_space:
  "is_space c \<Longrightarrow>
   re_sub (run_match is_space) (\<lambda>_. '' '') (c # cs)
     = CHR '' '' # re_sub (run_match is_space) (\<lambda>_. '' '') (dropWhile is_space cs)"
  by (simp add: run_match_hit dropWhile_eq_drop re_sub_hit [of "run_match is_space"])

lemma collapse_single_spaced:
  "single_spaced (re_sub (run_match is_space) (\<lambda>_. '' '') s)"
proof (induction s rule: length_induct)
  case (1 s)
  show ?case
  proof (cases s)
    case Nil
    then show ?thesis by simp
  next
    case (Cons c cs)
    show ?thesis
    proof (cases "is_space c")
      case False
      with 1 Cons show ?thesis
        by (simp add: collapse_nonspace single_spaced_nonspace_Cons)
    next
      case True
      define r where "r = dropWhile is_space cs"
      have len: "length r < length s"
        using Cons by (simp add: r_def length_dropWhile_le le_imp_less_Suc)
      have ih: "single_spaced (re_sub (run_match is_space) (\<lambda>_. '' '') r)"
        using 1 len by blast
      have hd: "re_sub (run_match is_space) (\<lambda>_. '' '') r = [] \<or>
                \<not> is_space (hd (re_sub (run_match is_space) (\<lambda>_. '' '') r))"
      proof (cases r)
        case Nil
        then show ?thesis by simp
      next
        case (Cons d ds)
        then have "\<not> is_space d"
          unfolding r_def by (metis hd_dropWhile list.distinct(1) list.sel(1))
        with Cons show ?thesis by (simp add: collapse_nonspace)
      qed
      have "re_sub (run_match is_space) (\<lambda>_. '' '') s
          = CHR '' '' # re_sub (run_match is_space) (\<lambda>_. '' '') r"
        unfolding Cons r_def by (rule collapse_space [OF True])
      then show ?thesis
        using ih hd by (simp add: single_spaced_blank_Cons)
    qed
  qed
qed

lemma collapse_fixed: "single_spaced y \<Longrightarrow> re_sub (run_match is_space) (\<lambda>_. '' '') y = y"
proof (induction y rule: single_spaced.induct)
  case 1
  then show ?case by simp
next
  case (2 c)
  then show ?case
    by (cases "is_space c") (simp_all add: collapse_nonspace collapse_space)
next
  case (3 a b r)
  show ?case
  proof (cases "is_space a")
    case False
    with 3 show ?thesis by (simp add: collapse_nonspace)
  next
    case True
    with 3 have "a = CHR '' ''" "\<not> is_space b" "single_spaced (b # r)" by simp_all
    with 3 True show ?thesis by (simp add: collapse_space)
  qed
qed

lemma strip_ends:
  "strip s \<noteq> [] \<Longrightarrow> \<not> is_space (hd (strip s)) \<and> \<not> is_space (last (strip s))"
proof -
  assume ne: "strip s \<noteq> []"
  define u where "u = dropWhile is_space s"
  define v where "v = dropWhile is_space (rev u)"
  have s: "strip s = rev v" by (simp add: strip_def u_def v_def)
  have v: "v \<noteq> []" using ne s by simp
  have u: "u \<noteq> []"
  proof
    assume "u = []"
    then have "v = []" by (simp add: v_def)
    with v show False by simp
  qed
  have "last (strip s) = hd v" using v s by (simp add: last_rev)
  moreover have "\<not> is_space (hd v)" using v unfolding v_def by (rule hd_dropWhile)
  moreover have "hd (strip s) = last v" using v s by (simp add: hd_rev)
  moreover have "last v = last (rev u)"
    using v unfolding v_def by (metis takeWhile_dropWhile_id last_appendR)
  moreover have "last (rev u) = hd u" using u by (simp add: last_rev)
  moreover have "\<not> is_space (hd u)" using u unfolding u_def by (rule hd_dropWhile)
  ultimately show ?thesis by simp
qed

lemma strip_fixed:
  "y = [] \<or> (\<not> is_space (hd y) \<and> \<not> is_space (last y)) \<Longrightarrow> strip y = y"
proof (cases y)
  case Nil
  then show ?thesis by (simp add: strip_def)
next
  case (Cons c cs)
  assume "y = [] \<or> (\<not> is_space (hd y) \<and> \<not> is_space (last y))"
  with Cons have h: "\<not> is_space c" and l: "\<not> is_space (last y)" by simp_all
  have "dropWhile is_space y = y" using Cons h by simp
  moreover have "dropWhile is_space (rev y) = rev y"
    using l Cons by (cases "rev y") (auto simp: hd_rev [symmetric])
  ultimately show ?thesis by (simp add: strip_def)
qed

lemma strip_decomp: "\<exists>a b. s = a @ strip s @ b"
proof -
  let ?u = "dropWhile is_space s"
  have "s = takeWhile is_space s @ ?u" by simp
  moreover have "rev ?u = takeWhile is_space (rev ?u) @ dropWhile is_space (rev ?u)" by simp
  then have "?u = strip s @ rev (takeWhile is_space (rev ?u))"
    unfolding strip_def by (metis rev_append rev_rev_ident)
  ultimately show ?thesis by metis
qed

lemma strip_single_spaced: "single_spaced s \<Longrightarrow> single_spaced (strip s)"
  using strip_decomp [of s] single_spaced_appendD by metis

lemma strip_set: "set (strip s) \<subseteq> set s"
  using strip_decomp [of s] by (metis Un_upper1 Un_upper2 set_append subset_trans)

lemma strip_length: "length (strip s) \<le> length s"
  using strip_decomp [of s] by (metis length_append le_add1 le_add2 le_trans)


text \<open>Character facts, and what each step of the cleaner keeps.\<close>

lemma lower_char_settled: "\<not> lower_changes (lower_char c)"
  by (auto simp: lower_char_def lower_changes_def code_def)

lemma lower_char_fixed: "\<not> lower_changes c \<Longrightarrow> lower_char c = c"
  by (simp add: lower_char_def)

lemma lower_fixed: "\<forall>c\<in>set y. \<not> lower_changes c \<Longrightarrow> lower y = y"
  by (simp add: lower_def lower_char_fixed map_idI)

lemma blank_plain:
  "\<not> lower_changes (CHR '' '')" "\<not> is_decimal (CHR '' '')" "\<not> is_punct (CHR '' '')"
  by (simp_all add: lower_changes_def is_decimal_def is_punct_def code_def)

lemma at_hash_punct: "is_punct (CHR ''@'')" "is_punct (CHR ''#'')"
  by (simp_all add: is_punct_def code_def)

lemma delete_runs_filter: "re_sub (run_match cls) (\<lambda>_. []) s = filter (\<lambda>c. \<not> cls c) s"
proof (induction s rule: re_sub_scan [where m = "run_match cls"])
  case Nil
  then show ?case by simp
next
  case (copy c cs)
  then have "\<not> cls c" by (auto simp: run_match_def split: if_splits)
  with copy show ?case by (simp add: re_sub_copy)
next
  case (hit c cs n)
  then have c: "cls c" and n: "n = length (takeWhile cls cs)"
    by (auto simp: run_match_def split: if_splits)
  have "filter (\<lambda>c. \<not> cls c) cs
      = filter (\<lambda>c. \<not> cls c) (takeWhile cls cs) @ filter (\<lambda>c. \<not> cls c) (dropWhile cls cs)"
    by (metis filter_append takeWhile_dropWhile_id)
  moreover have "filter (\<lambda>c. \<not> cls c) (takeWhile cls cs) = []"
    by (auto simp: filter_empty_conv dest: set_takeWhileD)
  ultimately have "filter (\<lambda>c. \<not> cls c) cs = filter (\<lambda>c. \<not> cls c) (drop n cs)"
    by (simp add: n dropWhile_eq_drop)
  with hit.IH c show ?case
    by (simp add: re_sub_hit [of "run_match cls", OF hit.hyps])
qed

lemma no_mention: "\<forall>c\<in>set s. c \<noteq> CHR ''@'' \<Longrightarrow> \<not> re_search mention_match s"
  by (induction s) (simp_all add: mention_match_def Let_def)

lemma no_hashtag: "\<forall>c\<in>set s. c \<noteq> CHR ''#'' \<Longrightarrow> \<not> re_search hashtag_match s"
  by (induction s) (simp_all add: hashtag_match_def Let_def)

lemma collapse_pres:
  assumes "P (CHR '' '')" "\<forall>c\<in>set s. P c"
  shows "\<forall>c\<in>set (re_sub (run_match is_space) (\<lambda>_. '' '') s). P c"
  using assms(2) by (rule re_sub_pres [rotated]) (simp add: assms(1))

lemma delete_pres:
  "\<forall>c\<in>set s. P c \<Longrightarrow> \<forall>c\<in>set (re_sub m (\<lambda>_. []) s). P c"
  by (rule re_sub_pres [rotated]) simp_all

lemma hashtag_pres:
  assumes "\<forall>c\<in>set s. P c"
  shows "\<forall>c\<in>set (re_sub m tl s). P c"
proof (rule re_sub_pres [OF _ assms])
  fix t :: string
  assume "\<forall>c\<in>set t. P c"
  then show "\<forall>c\<in>set (tl t). P c" by (cases t) simp_all
qed

lemma strip_pres: "\<forall>c\<in>set s. P c \<Longrightarrow> \<forall>c\<in>set (strip s). P c"
  using strip_set by blast

lemma clean_steps_cleaned: "cleaned (clean_steps x)"
proof -
  define t1 where "t1 = lower x"
  define t2 where "t2 = re_sub url_match (\<lambda>_. []) t1"
  define t3 where "t3 = re_sub mention_match (\<lambda>_. []) t2"
  define t4 where "t4 = re_sub hashtag_match tl t3"
  define t5 where "t5 = filter (\<lambda>c. \<not> is_punct c) t4"
  define t6 where "t6 = re_sub (run_match is_decimal) (\<lambda>_. []) t5"
  define t7 where "t7 = re_sub (run_match is_space) (\<lambda>_. '' '') t6"
  have cs: "clean_steps x = strip t7"
    by (simp add: clean_steps_def t1_def t2_def t3_def t4_def t5_def t6_def t7_def)
  have "\<forall>c\<in>set t1. \<not> lower_changes c"
    by (simp add: t1_def lower_def lower_char_settled)
  then have "\<forall>c\<in>set t4. \<not> lower_changes c"
    unfolding t2_def t3_def t4_def by (intro hashtag_pres delete_pres)
  then have u5: "\<forall>c\<in>set t5. \<not> lower_changes c" and p5: "\<forall>c\<in>set t5. \<not> is_punct c"
    by (simp_all add: t5_def)
  have t6: "t6 = filter (\<lambda>c. \<not> is_decimal c) t5"
    by (simp add: t6_def delete_runs_filter)
  have "\<forall>c\<in>set t6. \<not> lower_changes c \<and> \<not> is_decimal c \<and> \<not> is_punct c"
    using u5 p5 by (simp add: t6)
  then have "\<forall>c\<in>set t7. \<not> lower_changes c \<and> \<not> is_decimal c \<and> \<not> is_punct c"
    unfolding t7_def by (intro collapse_pres) (simp_all add: blank_plain)
  then have chars: "\<forall>c\<in>set (strip t7). \<not> lower_changes c \<and> \<not> is_decimal c \<and> \<not> is_punct c"
    by (rule strip_pres)
  have "single_spaced t7" by (simp add: t7_def collapse_single_spaced)
  then have sp: "single_spaced (strip t7)" by (rule strip_single_spaced)
  show ?thesis
    unfolding cs cleaned_def using chars sp strip_ends [of t7]
    by (simp add: list_all_iff)
qed

lemma cleaned_fixed:
  assumes "cleaned y" "\<not> re_search url_match y"
  shows "clean_steps y = y"
proof -
  from assms(1) have chars: "\<forall>c\<in>set y. \<not> lower_changes c \<and> \<not> is_decimal c \<and> \<not> is_punct c"
    and sp: "single_spaced y"
    and ends: "y = [] \<or> (\<not> is_space (hd y) \<and> \<not> is_space (last y))"
    by (auto simp: cleaned_def list_all_iff split: if_splits)
  have 1: "lower y = y" using chars by (simp add: lower_fixed)
  have 2: "re_sub url_match (\<lambda>_. []) y = y" using assms(2) by (rule re_sub_no_match)
  have "\<forall>c\<in>set y. c \<noteq> CHR ''@''" "\<forall>c\<in>set y. c \<noteq> CHR ''#''"
    using chars at_hash_punct by auto
  then have 3: "re_sub mention_match (\<lambda>_. []) y = y" and 4: "re_sub hashtag_match tl y = y"
    by (simp_all add: re_sub_no_match no_mention no_hashtag)
  have 5: "filter (\<lambda>c. \<not> is_punct c) y = y" using chars by simp
  have 6: "re_sub (run_match is_decimal) (\<lambda>_. []) y = y"
    using chars by (simp add: delete_runs_filter)
  have 7: "re_sub (run_match is_space) (\<lambda>_. '' '') y = y" using sp by (rule collapse_fixed)
  have 8: "strip y = y" using ends by (rule strip_fixed)
  show ?thesis by (simp add: clean_steps_def 1 2 3 4 5 6 7 8)
qed

lemma url_match_pos: "url_match t \<noteq> Some 0"
  by (auto simp: url_match_def lit_nonspace_def Let_def split: option.splits if_splits)

lemma url_shrinks:
  assumes "lower y = y" "re_search url_match y"
  shows "length (clean_steps y) < length y"
proof -
  define t2 where "t2 = re_sub url_match (\<lambda>_. []) y"
  define t3 where "t3 = re_sub mention_match (\<lambda>_. []) t2"
  define t4 where "t4 = re_sub hashtag_match tl t3"
  define t5 where "t5 = filter (\<lambda>c. \<not> is_punct c) t4"
  define t6 where "t6 = re_sub (run_match is_decimal) (\<lambda>_. []) t5"
  define t7 where "t7 = re_sub (run_match is_space) (\<lambda>_. '' '') t6"
  have cs: "clean_steps y = strip t7"
    by (simp add: clean_steps_def assms(1) t2_def t3_def t4_def t5_def t6_def t7_def)
  have "length t2 < length y"
    unfolding t2_def using url_match_pos assms(2) by (rule re_sub_delete_shorter)
  moreover have "length t3 \<le> length t2" unfolding t3_def by (rule re_sub_length) simp
  moreover have "length t4 \<le> length t3" unfolding t4_def by (rule re_sub_length) simp
  moreover have "length t5 \<le> length t4" by (simp add: t5_def)
  moreover have "length t6 \<le> length t5" unfolding t6_def by (rule re_sub_length) simp
  moreover have "length t7 \<le> length t6"
    unfolding t7_def by (rule re_sub_length) (simp add: Suc_leI)
  moreover have "length (strip t7) \<le> length t7" by (rule strip_length)
  ultimately show ?thesis unfolding cs by linarith
qed


lemma clean_text_str: "clean_text (PyStr x) = Some (clean_steps x)"
  by (simp add: clean_steps_def lower_def strip_def)

lemma single_spaced_blank: "single_spaced y \<Longrightarrow> c \<in> set y \<Longrightarrow> is_space c \<Longrightarrow> c = CHR '' ''"
  by (induction y rule: single_spaced.induct) (auto split: if_splits)

lemma single_spaced_adjacent:
  "single_spaced y \<Longrightarrow> Suc i < length y \<Longrightarrow> \<not> (is_space (y ! i) \<and> is_space (y ! Suc i))"
proof (induction y arbitrary: i rule: single_spaced.induct)
  case 1
  then show ?case by simp
next
  case (2 c)
  then show ?case by simp
next
  case (3 a b r)
  show ?case
  proof (cases i)
    case 0
    with 3 show ?thesis by (auto split: if_splits)
  next
    case (Suc j)
    with 3 show ?thesis by simp
  qed
qed

text \<open>
  The cleaner removes what \<^verbatim>\<open>\d\<close> matches, and that is less than the digit
  characters: the superscript two (U+00B2) in the formula of water is a digit for
  \<^verbatim>\<open>str.isdigit()\<close> and stays in the cleaned text.
\<close>

theorem clean_text_shape_counterexample:
  "clean_text (PyStr [CHR ''H'', CHR 0xB2, CHR ''O'']) = Some [CHR ''h'', CHR 0xB2, CHR ''o'']
   \<and> str_isdigit ([CHR ''h'', CHR 0xB2, CHR ''o''] ! 1)"
  by code_simp

text \<open>
  A character that \<^verbatim>\<open>lower()\<close> does not change and that is neither whitespace, nor
  punctuation, nor a decimal digit passes the cleaner as it is, whatever else it may be.
\<close>

lemma clean_text_keeps_char:
  assumes "\<not> lower_changes c" "\<not> is_space c" "\<not> is_punct c" "\<not> is_decimal c"
  shows "clean_text (PyStr [c]) = Some [c]"
proof -
  have "cleaned [c]" using assms by (simp add: cleaned_def)
  moreover have "\<not> re_search url_match [c]"
    by (simp add: url_match_def lit_nonspace_def)
  ultimately have "clean_steps [c] = [c]" by (rule cleaned_fixed)
  then show ?thesis by (simp add: clean_text_str)
qed

text \<open>
  Claim C10, amended. The cleaned text of any string has no character that
  \<^verbatim>\<open>str.lower()\<close> changes, no character that \<^verbatim>\<open>\d\<close> matches and no ASCII punctuation
  character; its only whitespace characters are spaces, it neither starts nor ends with
  one, and no two of them are adjacent.
\<close>

theorem clean_text_shape:
  "\<exists>y. clean_text (PyStr x) = Some y
     \<and> (\<forall>c\<in>set y. \<not> lower_changes c \<and> \<not> is_decimal c \<and> \<not> is_punct c)
     \<and> (\<forall>c\<in>set y. is_space c \<longrightarrow> c = CHR '' '')
     \<and> (y \<noteq> [] \<longrightarrow> \<not> is_space (hd y) \<and> \<not> is_space (last y))
     \<and> (\<forall>i. Suc i < length y \<longrightarrow> \<not> (is_space (y ! i) \<and> is_space (y ! Suc i)))"
proof -
  have c: "cleaned (clean_steps x)" by (rule clean_steps_cleaned)
  then have sp: "single_spaced (clean_steps x)" by (simp add: cleaned_def)
  have "\<forall>c\<in>set (clean_steps x). \<not> lower_changes c \<and> \<not> is_decimal c \<and> \<not> is_punct c"
    using c by (simp add: cleaned_def list_all_iff)
  moreover have "\<forall>c\<in>set (clean_steps x). is_space c \<longrightarrow> c = CHR '' ''"
    using sp single_spaced_blank by blast
  moreover have "clean_steps x \<noteq> [] \<longrightarrow>
      \<not> is_space (hd (clean_steps x)) \<and> \<not> is_space (last (clean_steps x))"
    using c by (auto simp: cleaned_def split: if_splits)
  moreover have "\<forall>i. Suc i < length (clean_steps x) \<longrightarrow>
      \<not> (is_space (clean_steps x ! i) \<and> is_space (clean_steps x ! Suc i))"
    using sp single_spaced_adjacent by blast
  ultimately show ?thesis unfolding clean_text_str by blast
qed

theorem clean_text_shape_witness:
  "\<exists>y. clean_text (PyStr ''  Flood  at PIER 39, now!! '') = Some y \<and> y = ''flood at pier now''
     \<and> \<not> lower_changes (y ! 9) \<and> \<not> is_decimal (y ! 9) \<and> \<not> is_punct (y ! 9)
     \<and> is_space (y ! 5) \<and> y ! 5 = CHR '' ''
     \<and> \<not> is_space (hd y) \<and> \<not> is_space (last y)
     \<and> Suc 5 < length y \<and> \<not> (is_space (y ! 5) \<and> is_space (y ! Suc 5))"
proof -
  have v: "clean_text (PyStr ''  Flood  at PIER 39, now!! '') = Some ''flood at pier now''"
    by code_simp
  from clean_text_shape [of "''  Flood  at PIER 39, now!! ''"]
  obtain y where y: "clean_text (PyStr ''  Flood  at PIER 39, now!! '') = Some y"
    and chars: "\<forall>c\<in>set y. \<not> lower_changes c \<and> \<not> is_decimal c \<and> \<not> is_punct c"
    and blank: "\<forall>c\<in>set y. is_space c \<longrightarrow> c = CHR '' ''"
    and ends: "y \<noteq> [] \<longrightarrow> \<not> is_space (hd y) \<and> \<not> is_space (last y)"
    and adj: "\<forall>i. Suc i < length y \<longrightarrow> \<not> (is_space (y ! i) \<and> is_space (y ! Suc i))"
    by blast
  from y v have eq: "y = ''flood at pier now''" by simp
  have len: "Suc 5 < length y" "9 < length y" "5 < length y" by (simp_all add: eq)
  have sp5: "is_space (y ! 5)" by (simp add: eq is_space_def code_def)
  have "y ! 9 \<in> set y" "y ! 5 \<in> set y" using len by (simp_all del: nth_mem add: nth_mem [of _ y])
  with chars blank sp5 have "\<not> lower_changes (y ! 9) \<and> \<not> is_decimal (y ! 9) \<and> \<not> is_punct (y ! 9)"
    "y ! 5 = CHR '' ''" by blast+
  moreover have "\<not> is_space (hd y) \<and> \<not> is_space (last y)" using ends eq by simp
  moreover have "\<not> (is_space (y ! 5) \<and> is_space (y ! Suc 5))" using adj len by blast
  ultimately show ?thesis using y eq sp5 len by blast
qed


theorem clean_text_twice_counterexample:
  "clean_text (PyStr ''w.w.w.noaa.gov'') = Some ''wwwnoaagov'' \<and>
   clean_text (PyStr ''wwwnoaagov'') = Some [] \<and>
   clean_text (PyStr ''wwwnoaagov'') \<noteq> clean_text (PyStr ''w.w.w.noaa.gov'')"
  by code_simp

section \<open>Properties of the processor\<close>

lemma those_map_Some:
  "those (map f xs) = Some ys \<Longrightarrow> length ys = length xs \<and> (\<forall>i<length xs. f (xs ! i) = Some (ys ! i))"
proof (induction xs arbitrary: ys)
  case Nil
  then show ?case by simp
next
  case (Cons x xs)
  from Cons.prems obtain y zs where y: "f x = Some y" and zs: "those (map f xs) = Some zs"
    and ys: "ys = y # zs"
    by (auto split: option.splits)
  from Cons.IH [OF zs] y ys show ?case
    by (auto simp: nth_Cons split: nat.splits)
qed

lemma those_map_fixed: "\<forall>y\<in>set ys. f y = Some y \<Longrightarrow> those (map f ys) = Some ys"
  by (induction ys) simp_all

lemma lemmatize_tokens_twice:
  assumes "\<forall>lemmatize t u. lemmatizer p = Some lemmatize \<and> t \<in> set toks \<and> lemmatize t = Some u
             \<longrightarrow> lemmatize u = Some u"
  shows "lemmatize_tokens p (lemmatize_tokens p toks) = lemmatize_tokens p toks"
proof (cases "lemmatizer p")
  case None
  then show ?thesis by (simp add: lemmatize_tokens_def)
next
  case (Some f)
  show ?thesis
  proof (cases "those (map f toks)")
    case None
    with Some show ?thesis by (simp add: lemmatize_tokens_def)
  next
    case (Some ls)
    note ls = those_map_Some [OF Some]
    have "\<forall>y\<in>set ls. f y = Some y"
    proof
      fix y assume "y \<in> set ls"
      then obtain i where i: "i < length ls" "y = ls ! i" by (auto simp: in_set_conv_nth)
      with ls have "f (toks ! i) = Some y" "toks ! i \<in> set toks" by simp_all
      with assms \<open>lemmatizer p = Some f\<close> show "f y = Some y" by blast
    qed
    then have "those (map f ls) = Some ls" by (rule those_map_fixed)
    with Some \<open>lemmatizer p = Some f\<close> show ?thesis by (simp add: lemmatize_tokens_def)
  qed
qed

text \<open>
  Claim C4, amended. Cleaning a cleaned text again gives it back exactly when it holds no
  \<^verbatim>\<open>http\<close> or \<^verbatim>\<open>www\<close> directly followed by a non-whitespace character: the first
  pass removes URLs before it removes punctuation and digits, so it can leave such a
  token, and the second pass then deletes it. Lemmatizing twice is lemmatizing once
  whenever the injected lemmatizer returns each lemma it produced for a token unchanged.
\<close>

theorem clean_text_twice:
  "(\<exists>y. clean_text (PyStr x) = Some y
       \<and> ((clean_text (PyStr y) = Some y) = (\<not> re_search url_match y)))
   \<and> ((\<forall>lemmatize t u. lemmatizer p = Some lemmatize \<and> t \<in> set toks \<and> lemmatize t = Some u
             \<longrightarrow> lemmatize u = Some u)
        \<longrightarrow> lemmatize_tokens p (lemmatize_tokens p toks) = lemmatize_tokens p toks)"
proof -
  have c: "cleaned (clean_steps x)" by (rule clean_steps_cleaned)
  have "clean_steps (clean_steps x) = clean_steps x" if "\<not> re_search url_match (clean_steps x)"
    using c that by (rule cleaned_fixed)
  moreover have "clean_steps (clean_steps x) \<noteq> clean_steps x" if u: "re_search url_match (clean_steps x)"
  proof -
    have "lower (clean_steps x) = clean_steps x"
      using c by (simp add: cleaned_def list_all_iff lower_fixed)
    from url_shrinks [OF this u] show ?thesis by auto
  qed
  ultimately have "(clean_steps (clean_steps x) = clean_steps x) = (\<not> re_search url_match (clean_steps x))"
    by blast
  then show ?thesis
    using lemmatize_tokens_twice [of p toks] by (simp add: clean_text_str)
qed

theorem clean_text_twice_witness:
  "clean_text (PyStr ''Major FLOODING at Pier 39!!'') = Some ''major flooding at pier''
   \<and> clean_text (PyStr ''major flooding at pier'') = Some ''major flooding at pier''
   \<and> lemmatize_tokens example_processor [''floods'', ''waves''] = [''flood'', ''wave'']
   \<and> lemmatize_tokens example_processor [''flood'', ''wave''] = [''flood'', ''wave'']"
proof -
  have v: "clean_text (PyStr ''Major FLOODING at Pier 39!!'') = Some ''major flooding at pier''"
    by code_simp
  have n: "\<not> re_search url_match ''major flooding at pier''"
    by code_simp
  have l: "lemmatize_tokens example_processor [''floods'', ''waves''] = [''flood'', ''wave'']"
    by (simp add: lemmatize_tokens_def example_processor_def example_lemma_def)
  have h: "\<forall>lemmatize t u. lemmatizer example_processor = Some lemmatize
             \<and> t \<in> set [''floods'', ''waves''] \<and> lemmatize t = Some u \<longrightarrow> lemmatize u = Some u"
    by (auto simp: example_processor_def example_lemma_def)
  from clean_text_twice [of "''Major FLOODING at Pier 39!!''" example_processor "[''floods'', ''waves'']"]
  show ?thesis using v n l h by simp
qed

text \<open>
  Claim C9. For an empty string and for any argument that is not a string (also one
  whose truth test raises), \<^const>\<open>preprocess_text\<close> returns the empty result: empty
  cleaned text, no tokens, no stop-word-filtered tokens, no lemmas. The function has a
  result on every branch: nothing it calls can raise past its \<^verbatim>\<open>except\<close>.
\<close>

theorem preprocess_text_empty:
  "text = PyStr [] \<or> (\<forall>s. text \<noteq> PyStr s) \<Longrightarrow>
   cleaned_text (preprocess_text p text) = [] \<and> tokens (preprocess_text p text) = []
   \<and> tokens_no_stopwords (preprocess_text p text) = []
   \<and> lemmatized_tokens (preprocess_text p text) = []
   \<and> original_text (preprocess_text p text) = text"
proof -
  assume a: "text = PyStr [] \<or> (\<forall>s. text \<noteq> PyStr s)"
  have "clean_text text = None \<or> clean_text text = Some []"
    using a by (cases "text" rule: not_text.cases) auto
  then show ?thesis
    by (auto simp: preprocess_text_def tokenize_text_def remove_stopwords_def
        lemmatize_tokens_def split: option.splits)
qed

theorem preprocess_text_empty_witness:
  "cleaned_text (preprocess_text example_processor (PyStr [])) = []
   \<and> lemmatized_tokens (preprocess_text example_processor (PyStr [])) = []
   \<and> tokens (preprocess_text example_processor PyNone) = []
   \<and> tokens_no_stopwords (preprocess_text example_processor (PyObj None)) = []
   \<and> processed_text (preprocess_text example_processor (PyObj None)) = None
   \<and> processed_text (preprocess_text example_processor PyNone) = Some []"
proof -
  have "PyNone = PyStr [] \<or> (\<forall>s. PyNone \<noteq> PyStr s)"
    "PyObj None = PyStr [] \<or> (\<forall>s. PyObj None \<noteq> PyStr s)"
    "PyStr [] = PyStr [] \<or> (\<forall>s. PyStr [] \<noteq> PyStr s)"
    by simp_all
  from this [THEN preprocess_text_empty, of example_processor]
  show ?thesis
    by (simp add: preprocess_text_def tokenize_text_def remove_stopwords_def
        lemmatize_tokens_def example_processor_def)
qed


text \<open>Counting the tokens and ranking the counts.\<close>

lemma firsts_snoc: "firsts (xs @ [x]) = (if x \<in> set xs then firsts xs else firsts xs @ [x])"
  by (simp add: firsts_def)

lemma set_firsts: "set (firsts xs) = set xs"
  by (simp add: firsts_def)

lemma distinct_firsts: "distinct (firsts xs)"
  by (simp add: firsts_def)

lemma first_index_snoc_old: "u \<in> set xs \<Longrightarrow> first_index (xs @ ys) u = first_index xs u"
  unfolding first_index_def by (induction xs) auto

lemma first_index_less: "u \<in> set xs \<Longrightarrow> first_index xs u < length xs"
  unfolding first_index_def by (induction xs) auto

lemma first_index_snoc_new: "x \<notin> set xs \<Longrightarrow> first_index (xs @ [x]) x = length xs"
  unfolding first_index_def by (induction xs) auto

lemma firsts_in_order:
  "sorted_wrt (\<lambda>u v. first_index xs u < first_index xs v) (firsts (filter P xs))"
proof (induction xs rule: rev_induct)
  case Nil
  then show ?case by (simp add: firsts_def)
next
  case (snoc x xs)
  let ?F = "firsts (filter P xs)"
  have old: "\<forall>u\<in>set ?F. first_index (xs @ [x]) u = first_index xs u"
    by (simp add: set_firsts first_index_snoc_old)
  have keep: "sorted_wrt (\<lambda>u v. first_index (xs @ [x]) u < first_index (xs @ [x]) v) ?F"
    using snoc.IH old by (auto elim!: sorted_wrt_mono_rel [rotated])
  show ?case
  proof (cases "P x \<and> x \<notin> set xs")
    case False
    then show ?thesis using keep by (auto simp: firsts_snoc)
  next
    case True
    then have "firsts (filter P (xs @ [x])) = ?F @ [x]" by (simp add: firsts_snoc)
    moreover have "\<forall>u\<in>set ?F. first_index (xs @ [x]) u < first_index (xs @ [x]) x"
      using True by (simp add: set_firsts first_index_snoc_old first_index_snoc_new first_index_less)
    ultimately show ?thesis using keep by (simp add: sorted_wrt_append)
  qed
qed

lemma count_token_map:
  "distinct F \<Longrightarrow>
   count_token (map (\<lambda>w. (w, g w)) F) x =
     (if x \<in> set F then map (\<lambda>w. (w, if w = x then g w + 1 else g w)) F
      else map (\<lambda>w. (w, g w)) F @ [(x, 1)])"
  by (induction F) auto

lemma word_freq_items:
  "foldl (\<lambda>d token. if length token > 2 then count_token d token else d) [] xs
     = map (\<lambda>w. (w, int (count_list xs w))) (firsts (filter (\<lambda>w. 2 < length w) xs))"
proof (induction xs rule: rev_induct)
  case Nil
  then show ?case by (simp add: firsts_def)
next
  case (snoc x xs)
  let ?F = "firsts (filter (\<lambda>w. 2 < length w) xs)"
  show ?case
  proof (cases "2 < length x")
    case False
    then have "\<forall>w\<in>set ?F. x \<noteq> w" by (auto simp: set_firsts)
    with False snoc show ?thesis by simp
  next
    case True
    show ?thesis
    proof (cases "x \<in> set xs")
      case in_xs: True
      with True have "x \<in> set ?F" by (simp add: set_firsts)
      with True in_xs snoc show ?thesis
        by (simp add: count_token_map distinct_firsts firsts_snoc)
    next
      case False
      then have "x \<notin> set ?F" "\<forall>w\<in>set ?F. x \<noteq> w" by (auto simp: set_firsts)
      with True False snoc show ?thesis
        by (simp add: count_token_map distinct_firsts firsts_snoc count_list_0_iff)
    qed
  qed
qed

lemma insort_key_lex:
  fixes f :: "'a \<Rightarrow> 'k::linorder"
  assumes "sorted_wrt (\<lambda>a b. f a < f b \<or> (f a = f b \<and> R a b)) ys" "\<forall>y\<in>set ys. R x y"
  shows "sorted_wrt (\<lambda>a b. f a < f b \<or> (f a = f b \<and> R a b)) (insort_key f x ys)"
  using assms
proof (induction ys)
  case Nil
  then show ?case by simp
next
  case (Cons y ys)
  show ?case
  proof (cases "f x \<le> f y")
    case True
    have "\<forall>z\<in>set ys. f y \<le> f z" using Cons.prems(1) by auto
    with True Cons.prems show ?thesis by (auto simp: set_insort_key) 
  next
    case False
    with Cons show ?thesis by (auto simp: set_insort_key)
  qed
qed

lemma sort_key_lex:
  fixes f :: "'a \<Rightarrow> 'k::linorder"
  shows "sorted_wrt R xs \<Longrightarrow> sorted_wrt (\<lambda>a b. f a < f b \<or> (f a = f b \<and> R a b)) (sort_key f xs)"
proof (induction xs)
  case Nil
  then show ?case by simp
next
  case (Cons x xs)
  then have "sorted_wrt (\<lambda>a b. f a < f b \<or> (f a = f b \<and> R a b)) (sort_key f xs)"
    and "\<forall>y\<in>set (sort_key f xs). R x y" by simp_all
  then show ?case by (simp add: sort_key_def [symmetric] insort_key_lex del: set_sort)
qed

lemma slice_to_take: "0 \<le> n \<Longrightarrow> slice_to n xs = take (nat n) xs"
  by (simp add: slice_to_def)

text \<open>
  Claim C7. For a count \<open>top_n \<ge> 0\<close>, the keywords returned for a text are the first
  \<open>top_n\<close> entries (so at most \<open>top_n\<close>) of a ranking that holds each lemmatized token
  of more than two characters exactly once, paired with the number of its occurrences
  among the lemmatized tokens, in descending order of that number, entries with equal
  numbers in the order in which the tokens first occur.
\<close>

theorem extract_keywords_ranking:
  assumes "0 \<le> top_n"
  shows "\<exists>ranked. extract_keywords p (PyStr s) top_n = Some (take (nat top_n) ranked)
     \<and> int (length (take (nat top_n) ranked)) \<le> top_n
     \<and> distinct (map fst ranked)
     \<and> fst ` set ranked = {w \<in> set (lemmatized_tokens (preprocess_text p (PyStr s))). 2 < length w}
     \<and> (\<forall>(w, f) \<in> set ranked. f = int (count_list (lemmatized_tokens (preprocess_text p (PyStr s))) w))
     \<and> sorted_wrt (\<lambda>a b. snd b < snd a \<or> (snd a = snd b \<and>
            first_index (lemmatized_tokens (preprocess_text p (PyStr s))) (fst a)
              < first_index (lemmatized_tokens (preprocess_text p (PyStr s))) (fst b))) ranked"
proof -
  define lems where "lems = lemmatized_tokens (preprocess_text p (PyStr s))"
  define F where "F = firsts (filter (\<lambda>w. 2 < length w) lems)"
  define word_freq where "word_freq = map (\<lambda>w. (w, int (count_list lems w))) F"
  define ranked where "ranked = sort_key (\<lambda>x. - snd x) word_freq"
  have empty: "lems = []" if "s = []"
    using that by (simp add: lems_def preprocess_text_def tokenize_text_def
        remove_stopwords_def lemmatize_tokens_def split: option.splits)
  have res: "extract_keywords p (PyStr s) top_n = Some (take (nat top_n) ranked)"
  proof (cases "s = []")
    case True
    with empty have "ranked = []" by (simp add: ranked_def word_freq_def F_def firsts_def)
    with True show ?thesis by (simp add: extract_keywords_def)
  next
    case False
    have "extract_keywords p (PyStr s) top_n
        = Some (slice_to top_n (sort_key (\<lambda>x. - snd x)
            (foldl (\<lambda>d token. if length token > 2 then count_token d token else d) [] lems)))"
      using False unfolding extract_keywords_def Let_def lems_def by simp
    also have "\<dots> = Some (take (nat top_n) ranked)"
      unfolding word_freq_items ranked_def word_freq_def F_def
      using assms by (simp only: slice_to_take)
    finally show ?thesis .
  qed
  have len: "int (length (take (nat top_n) ranked)) \<le> top_n" using assms by simp
  have keys: "map fst word_freq = F" by (simp add: word_freq_def comp_def)
  have ms: "mset ranked = mset word_freq" by (simp add: ranked_def)
  have "mset (map fst ranked) = mset (map fst word_freq)" by (simp add: ms)
  then have "distinct (map fst ranked) = distinct F"
    unfolding keys by (rule mset_eq_imp_distinct_iff)
  then have dist: "distinct (map fst ranked)"
    unfolding F_def by (simp add: distinct_firsts)
  have st: "set ranked = set word_freq" by (simp add: ranked_def)
  have "fst ` set word_freq = set (map fst word_freq)" by simp
  also have "\<dots> = {w \<in> set lems. 2 < length w}"
    unfolding keys F_def by (simp add: set_firsts)
  finally have dom: "fst ` set ranked = {w \<in> set lems. 2 < length w}"
    unfolding st .
  have cnt: "\<forall>(w, f) \<in> set ranked. f = int (count_list lems w)"
    unfolding st by (auto simp: word_freq_def)
  have "sorted_wrt (\<lambda>u v. first_index lems u < first_index lems v) F"
    unfolding F_def by (rule firsts_in_order)
  then have "sorted_wrt (\<lambda>a b. first_index lems (fst a) < first_index lems (fst b)) word_freq"
    by (simp add: word_freq_def sorted_wrt_map)
  from sort_key_lex [OF this, of "\<lambda>x. - snd x"]
  have ord: "sorted_wrt (\<lambda>a b. snd b < snd a \<or> (snd a = snd b \<and>
            first_index lems (fst a) < first_index lems (fst b))) ranked"
    by (simp add: ranked_def)
  show ?thesis
    using res len dist dom cnt ord unfolding lems_def by blast
qed

theorem extract_keywords_ranking_witness:
  "(0::int) \<le> 2
   \<and> extract_keywords example_processor (PyStr ''Sea surf, surf sea rip'') 2
       = Some [(''sea'', 2), (''surf'', 2)]
   \<and> (\<exists>ranked. extract_keywords example_processor (PyStr ''Sea surf, surf sea rip'') 2
          = Some (take (nat 2) ranked) \<and> distinct (map fst ranked))"
proof -
  have v: "extract_keywords example_processor (PyStr ''Sea surf, surf sea rip'') 2
       = Some [(''sea'', 2), (''surf'', 2)]"
    by code_simp
  have h: "(0::int) \<le> 2" by simp
  from extract_keywords_ranking [OF h, of example_processor "''Sea surf, surf sea rip''"]
  show ?thesis using v h by blast
qed


lemma analyze_sentiment_str:
  "analyze_sentiment p (PyStr s) =
     (if s = [] then Some default_sentiment
      else (case sentiment_probabilities p s of
              None \<Rightarrow> Some default_sentiment
            | Some row \<Rightarrow>
                if length row < 2 then Some default_sentiment
                else Some \<lparr>positive = row ! 1, negative = row ! 0,
                           label = (if row ! 1 > row ! 0 then ''positive'' else ''negative'')\<rparr>))"
  by (cases "s = []") (simp_all add: analyze_sentiment_def)

text \<open>
  Claim C5. For an empty text, a non-string argument with a truth value, and whenever
  the sentiment model fails (or returns a row too short to index), the result is the
  default: negative 1, positive 0, label \<^verbatim>\<open>negative\<close>. If the row the model returns
  is the softmax over its two classes, summing to 1 within \<open>10\<^sup>-\<^sup>6\<close>, then so do the
  two probabilities of every result.
\<close>

theorem analyze_sentiment_default:
  "(s = [] \<or> sentiment_probabilities p s = None
      \<longrightarrow> analyze_sentiment p (PyStr s) = Some default_sentiment)
   \<and> (not_text v = Some True \<longrightarrow> analyze_sentiment p v = Some default_sentiment)
   \<and> negative default_sentiment = 1 \<and> positive default_sentiment = 0
   \<and> label default_sentiment = ''negative''
   \<and> ((\<forall>row. sentiment_probabilities p s = Some row
            \<longrightarrow> length row \<le> 2 \<and> \<bar>sum_list row - 1\<bar> \<le> 1 / 10 ^ 6)
        \<longrightarrow> (\<exists>r. analyze_sentiment p (PyStr s) = Some r
               \<and> \<bar>negative r + positive r - 1\<bar> \<le> 1 / 10 ^ 6))"
proof -
  have a: "analyze_sentiment p (PyStr s) = Some default_sentiment"
    if "s = [] \<or> sentiment_probabilities p s = None"
    using that by (auto simp: analyze_sentiment_str)
  have b: "analyze_sentiment p v = Some default_sentiment" if "not_text v = Some True"
    using that by (simp add: analyze_sentiment_def)
  have d: "\<bar>negative default_sentiment + positive default_sentiment - 1\<bar> \<le> 1 / 10 ^ 6"
    by (simp add: default_sentiment_def)
  have c: "\<exists>r. analyze_sentiment p (PyStr s) = Some r
               \<and> \<bar>negative r + positive r - 1\<bar> \<le> 1 / 10 ^ 6"
    if h: "\<forall>row. sentiment_probabilities p s = Some row
            \<longrightarrow> length row \<le> 2 \<and> \<bar>sum_list row - 1\<bar> \<le> 1 / 10 ^ 6"
  proof (cases "s = [] \<or> sentiment_probabilities p s = None")
    case True
    with a d show ?thesis by simp
  next
    case False
    then obtain row where row: "sentiment_probabilities p s = Some row" and s: "s \<noteq> []"
      by auto
    show ?thesis
    proof (cases "length row < 2")
      case True
      with row s have "analyze_sentiment p (PyStr s) = Some default_sentiment"
        by (simp add: analyze_sentiment_str)
      with d show ?thesis by simp
    next
      case False
      with h row have "length row = 2" by force
      then obtain x y where xy: "row = [x, y]"
        by (metis (no_types, opaque_lifting) One_nat_def Suc_1 Suc_length_conv length_0_conv)
      with h row have "\<bar>x + y - 1\<bar> \<le> 1 / 10 ^ 6" by force
      with row s xy show ?thesis by (simp add: analyze_sentiment_str)
    qed
  qed
  show ?thesis using a b c by (simp add: default_sentiment_def)
qed

theorem analyze_sentiment_default_witness:
  "analyze_sentiment example_processor (PyStr []) = Some default_sentiment
   \<and> analyze_sentiment example_processor (PyStr ''crash'') = Some default_sentiment
   \<and> analyze_sentiment example_processor PyNone = Some default_sentiment
   \<and> analyze_sentiment example_processor (PyStr ''calm'')
       = Some \<lparr>positive = 1 / 4, negative = 3 / 4, label = ''negative''\<rparr>
   \<and> (\<exists>r. analyze_sentiment example_processor (PyStr ''calm'') = Some r
          \<and> \<bar>negative r + positive r - 1\<bar> \<le> 1 / 10 ^ 6)"
proof -
  have h: "\<forall>row. sentiment_probabilities example_processor ''calm'' = Some row
            \<longrightarrow> length row \<le> 2 \<and> \<bar>sum_list row - 1\<bar> \<le> 1 / 10 ^ 6"
    by (auto simp: example_processor_def)
  have 1: "sentiment_probabilities example_processor ''crash'' = None"
    by (simp add: example_processor_def)
  have 2: "not_text PyNone = Some True" by simp
  have 3: "analyze_sentiment example_processor (PyStr ''calm'')
       = Some \<lparr>positive = 1 / 4, negative = 3 / 4, label = ''negative''\<rparr>"
    by (simp add: analyze_sentiment_str example_processor_def)
  from analyze_sentiment_default [of "[]" example_processor PyNone]
    analyze_sentiment_default [of "''crash''" example_processor PyNone]
    analyze_sentiment_default [of "''calm''" example_processor PyNone]
  show ?thesis using h 1 2 3 by blast
qed


section \<open>Properties of the classifier\<close>

text \<open>Searching a pattern: a match survives any text added around it.\<close>

lemma match_here_append: "match_here p s \<Longrightarrow> match_here p (s @ b)"
proof (induction p s rule: match_here.induct)
  case (1 s)
  then show ?case by simp
next
  case (2 l r s)
  then have "length l \<le> length s"
    by (metis length_take min.cobounded1 match_here.simps(2))
  with 2 show ?case by auto
next
  case (3 l r s)
  show ?case
  proof (cases "take (length l) s = l \<and> match_here r (drop (length l) s)")
    case True
    then have "length l \<le> length s" by (metis length_take min.cobounded1)
    with True 3 show ?thesis by auto
  next
    case False
    with 3 show ?thesis by auto
  qed
next
  case (4 a c r s)
  show ?case
  proof (cases "take (length a) s = a \<and> match_here r (drop (length a) s)")
    case True
    then have "length a \<le> length s" by (metis length_take min.cobounded1)
    with True 4 show ?thesis by auto
  next
    case False
    with "4.prems" have c: "take (length c) s = c \<and> match_here r (drop (length c) s)" by auto
    then have "length c \<le> length s" by (metis length_take min.cobounded1)
    with c 4 show ?thesis by auto
  qed
next
  case (5 r)
  then have "match_here r b" by simp
  then show ?case by (cases b) simp_all
next
  case (6 r c cs)
  then show ?case by auto
qed

lemma match_here_search: "match_here p s \<Longrightarrow> search p s"
  by (cases s) simp_all

lemma search_append: "search p s \<Longrightarrow> search p (s @ b)"
proof (induction s)
  case Nil
  then show ?case by (simp add: match_here_search match_here_append [of p "[]", simplified])
next
  case (Cons c s)
  then show ?case using match_here_append [of p "c # s" b] by auto
qed

lemma search_prepend: "search p s \<Longrightarrow> search p (a @ s)"
proof (induction a)
  case Nil
  then show ?case by simp
next
  case (Cons c a)
  then show ?case by simp
qed

lemma matches_context: "search p (lower s) \<Longrightarrow> matches p (a @ s @ b)"
  by (simp add: matches_def lower_def search_append search_prepend)

lemma matching_keys_iff:
  "k \<in> set (matching_keys table t) \<longleftrightarrow> (\<exists>ps p. (k, ps) \<in> set table \<and> p \<in> set ps \<and> matches p t)"
  by (force simp: matching_keys_def list_ex_iff)

lemma present_iff:
  "tier \<in> set (matching_keys severity_indicators t) \<longleftrightarrow> indicator_present tier t"
  by (force simp: matching_keys_def indicator_present_def list_ex_iff)

text \<open>
  Claim C1. The severity of a text is \<^verbatim>\<open>high\<close> if an indicator of the high tier
  occurs in it, else \<^verbatim>\<open>medium\<close> if one of the medium tier does, else \<^verbatim>\<open>low\<close> if one of
  the low tier does, else \<^verbatim>\<open>unknown\<close>; the classification carries that severity. The
  text \<^verbatim>\<open>minor update on beach conditions\<close> holds no indicator of the high or the medium
  tier, and its severity is \<^verbatim>\<open>low\<close>.
\<close>

theorem severity_precedence:
  "resolve_severity t =
     (if indicator_present High t then High
      else if indicator_present Medium t then Medium
      else if indicator_present Low t then Low
      else Unknown)
   \<and> severity (classify t n) = resolve_severity t
   \<and> \<not> indicator_present High ''minor update on beach conditions''
   \<and> \<not> indicator_present Medium ''minor update on beach conditions''
   \<and> resolve_severity ''minor update on beach conditions'' = Low"
proof -
  have 1: "resolve_severity t =
     (if indicator_present High t then High
      else if indicator_present Medium t then Medium
      else if indicator_present Low t then Low
      else Unknown)"
    by (simp add: resolve_severity_def present_iff)
  have 2: "severity (classify t n) = resolve_severity t" by (simp add: classify_def)
  have 3: "\<not> indicator_present High ''minor update on beach conditions''"
    by code_simp
  have 4: "\<not> indicator_present Medium ''minor update on beach conditions''"
    by code_simp
  have 5: "resolve_severity ''minor update on beach conditions'' = Low"
    by code_simp
  from 1 2 3 4 5 show ?thesis by blast
qed

text \<open>
  Claim C2. A hazard type is among the tags of a text exactly when one of its patterns
  matches the text, so every matching type is tagged; the match reads the raw text
  without regard to case and nothing of the normalized form. Every text that contains
  \<^verbatim>\<open>major flooding\<close> and, later, \<^verbatim>\<open>dangerous waves\<close> is tagged \<^verbatim>\<open>flood\<close> and
  \<^verbatim>\<open>high_waves\<close> with severity \<^verbatim>\<open>high\<close>, and these are the only tags of
  \<^verbatim>\<open>major flooding... dangerous waves\<close> itself.
\<close>

theorem classify_tags_all:
  "(h \<in> set (hazards (classify t n))
      \<longleftrightarrow> (\<exists>ps p. (h, ps) \<in> set hazard_patterns \<and> p \<in> set ps \<and> matches p t))
   \<and> (lower t' = lower t \<longrightarrow> classify t' n' = classify t n)
   \<and> flood \<in> set (hazards (classify (a @ ''major flooding'' @ m @ ''dangerous waves'' @ b) n))
   \<and> high_waves \<in> set (hazards (classify (a @ ''major flooding'' @ m @ ''dangerous waves'' @ b) n))
   \<and> severity (classify (a @ ''major flooding'' @ m @ ''dangerous waves'' @ b) n) = High
   \<and> hazards (classify ''major flooding... dangerous waves'' n) = [flood, high_waves]"
proof -
  let ?t = "a @ ''major flooding'' @ m @ ''dangerous waves'' @ b"
  have 1: "h \<in> set (hazards (classify t n))
      \<longleftrightarrow> (\<exists>ps p. (h, ps) \<in> set hazard_patterns \<and> p \<in> set ps \<and> matches p t)"
    by (simp add: classify_def matching_keys_iff)
  have 2: "classify t' n' = classify t n" if "lower t' = lower t"
    using that by (simp add: classify_def resolve_severity_def matching_keys_def matches_def)
  have "search [Lit ''flood'', Opt ''ing''] (lower ''flooding'')" by code_simp
  from matches_context [OF this, of "a @ ''major ''" "m @ ''dangerous waves'' @ b"]
  have "matches [Lit ''flood'', Opt ''ing''] ?t" by simp
  moreover have "(flood, [[Lit ''flood'', Opt ''ing''],
       [Lit ''water level'', Opt ''s'', Lit '' rise''],
       [Lit ''submerged''],
       [Lit ''inundat'', Alt ''e'' ''ion'']]) \<in> set hazard_patterns"
    by (simp add: hazard_patterns_def)
  ultimately have 3: "flood \<in> set (hazards (classify ?t n))"
    unfolding classify_def hazard_classification.simps matching_keys_iff
    by (meson list.set_intros(1))
  have "search [Lit ''dangerous'', Spaces, Lit ''wave'', Opt ''s''] (lower ''dangerous waves'')"
    by code_simp
  from matches_context [OF this, of "a @ ''major flooding'' @ m" b]
  have "matches [Lit ''dangerous'', Spaces, Lit ''wave'', Opt ''s''] ?t" by simp
  moreover have "(high_waves, [[Lit ''high'', Spaces, Lit ''wave'', Opt ''s''],
       [Lit ''large'', Spaces, Lit ''wave'', Opt ''s''],
       [Lit ''dangerous'', Spaces, Lit ''wave'', Opt ''s''],
       [Lit ''rough'', Spaces, Lit ''sea'', Opt ''s''],
       [Lit ''wave'', Spaces, Lit ''height'']]) \<in> set hazard_patterns"
    by (simp add: hazard_patterns_def)
  ultimately have 4: "high_waves \<in> set (hazards (classify ?t n))"
    unfolding classify_def hazard_classification.simps matching_keys_iff
    by (meson list.set_intros(1) list.set_intros(2))
  have "search [Lit ''major''] (lower ''major'')" by code_simp
  from matches_context [OF this, of a "'' flooding'' @ m @ ''dangerous waves'' @ b"]
  have "matches [Lit ''major''] ?t" by simp
  then have "indicator_present High ?t"
    by (simp add: indicator_present_def severity_indicators_def)
  then have 5: "severity (classify ?t n) = High"
    by (simp add: classify_def resolve_severity_def present_iff)
  have "matching_keys hazard_patterns ''major flooding... dangerous waves'' = [flood, high_waves]"
    by code_simp
  then have 6: "hazards (classify ''major flooding... dangerous waves'' n) = [flood, high_waves]"
    by (simp add: classify_def)
  from 1 2 3 4 5 6 show ?thesis by blast
qed

theorem classify_tags_all_witness:
  "lower ''MAJOR Flood'' = lower ''major flood''
   \<and> classify ''MAJOR Flood'' (preprocess_text example_processor (PyStr ''MAJOR Flood''))
       = classify ''major flood'' (preprocess_text example_processor PyNone)
   \<and> hazards (classify ''major flood'' (preprocess_text example_processor PyNone)) = [flood]"
proof -
  have l: "lower ''MAJOR Flood'' = lower ''major flood''" by code_simp
  have h: "matching_keys hazard_patterns ''major flood'' = [flood]" by code_simp
  from classify_tags_all [of flood "''major flood''" "preprocess_text example_processor PyNone"
      "''MAJOR Flood''" "preprocess_text example_processor (PyStr ''MAJOR Flood'')" "[]" "[]" "[]"]
  show ?thesis using l h by (simp add: classify_def)
qed

theorem severity_without_tags_counterexample:
  "severity (classify ''major damage'' (preprocess_text example_processor (PyStr ''major damage''))) = High
   \<and> hazards (classify ''major damage'' (preprocess_text example_processor (PyStr ''major damage''))) = []"
proof -
  have "resolve_severity ''major damage'' = High" by code_simp
  moreover have "matching_keys hazard_patterns ''major damage'' = []" by code_simp
  ultimately show ?thesis by (simp add: classify_def)
qed

text \<open>
  Claim C6, amended. The severity of a classification is not \<^verbatim>\<open>unknown\<close> exactly when
  some severity indicator occurs in the text, and its tag set is not empty exactly when
  some hazard pattern matches the text; the two are resolved independently of each other.
\<close>

theorem severity_and_tags_independent:
  "(severity (classify t n) \<noteq> Unknown
      \<longleftrightarrow> (\<exists>tier ps p. (tier, ps) \<in> set severity_indicators \<and> p \<in> set ps \<and> matches p t))
   \<and> (hazards (classify t n) \<noteq> []
      \<longleftrightarrow> (\<exists>h ps p. (h, ps) \<in> set hazard_patterns \<and> p \<in> set ps \<and> matches p t))"
proof -
  have tiers: "tier = High \<or> tier = Medium \<or> tier = Low"
    if "(tier, ps) \<in> set severity_indicators" for tier ps
    using that by (auto simp: severity_indicators_def)
  have "severity (classify t n) \<noteq> Unknown
      \<longleftrightarrow> (\<exists>tier. tier \<in> set (matching_keys severity_indicators t))"
  proof
    assume "severity (classify t n) \<noteq> Unknown"
    then show "\<exists>tier. tier \<in> set (matching_keys severity_indicators t)"
      by (auto simp: classify_def resolve_severity_def Let_def split: if_splits)
  next
    assume "\<exists>tier. tier \<in> set (matching_keys severity_indicators t)"
    then obtain tier where k: "tier \<in> set (matching_keys severity_indicators t)" by blast
    then have "tier = High \<or> tier = Medium \<or> tier = Low"
      using tiers by (auto simp: matching_keys_iff)
    with k show "severity (classify t n) \<noteq> Unknown"
      by (auto simp: classify_def resolve_severity_def Let_def)
  qed
  moreover have "hazards (classify t n) \<noteq> []
      \<longleftrightarrow> (\<exists>h. h \<in> set (hazards (classify t n)))"
    by (cases "hazards (classify t n)") auto
  ultimately show ?thesis
    unfolding matching_keys_iff by (simp add: classify_def matching_keys_iff)
qed


section \<open>Properties of the prioritizer\<close>

text \<open>The sort key and the order of the claim agree; a sort on distinct keys has one result.\<close>

lemma rank_key_le: "rank_key a \<le> rank_key b \<longleftrightarrow> ranks_before a b"
  by (auto simp: rank_key_def ranks_before_def less_eq_prod_def less_prod_def)

lemma sort_key_unique:
  fixes f :: "'a \<Rightarrow> 'k::linorder"
  assumes "inj_on f (set xs)" "distinct xs" "mset ys = mset xs"
  shows "sort_key f ys = sort_key f xs"
proof -
  have s: "set ys = set xs" using assms(3) by (rule mset_eq_setD)
  have dy: "distinct ys" using assms(2,3) by (metis mset_eq_imp_distinct_iff)
  let ?a = "map f (sort_key f ys)" and ?b = "map f (sort_key f xs)"
  have d: "distinct ?a" "distinct ?b"
    using assms(1,2) dy s by (simp_all add: distinct_map)
  have "set ?a = set ?b" using s by simp
  with d have "?a = ?b" by (intro sorted_distinct_set_unique) simp_all
  moreover have "inj_on f (set (sort_key f ys) \<union> set (sort_key f xs))"
    using assms(1) s by simp
  ultimately show ?thesis by (simp add: inj_on_map_eq_map)
qed

text \<open>
  Claim C3. The prioritizer returns the reports it was given, each as often as it came;
  in its result every report stands before every later one in the order: higher
  priority first, among equal priorities the more recent timestamp first, among equal
  timestamps the smaller id first. The empty batch gives the empty list. For a batch
  whose (priority, timestamp, id) triples are distinct the result does not depend on
  the order in which the reports arrive.
\<close>

theorem prioritize_order:
  "mset (prioritize batch) = mset batch
   \<and> sorted_wrt ranks_before (prioritize batch)
   \<and> prioritize ([] :: 'a report_scheme list) = []
   \<and> (distinct (map (\<lambda>r. (priority r, timestamp r, report_id r)) batch)
        \<and> mset batch' = mset batch
      \<longrightarrow> prioritize batch' = prioritize batch)"
proof -
  have 1: "mset (prioritize batch) = mset batch" by (simp add: prioritize_def)
  have "sorted (map rank_key (prioritize batch))" by (simp add: prioritize_def)
  then have 2: "sorted_wrt ranks_before (prioritize batch)"
    by (simp add: sorted_map rank_key_le)
  have 3: "prioritize ([] :: 'a report_scheme list) = []" by (simp add: prioritize_def)
  have 4: "prioritize batch' = prioritize batch"
    if d: "distinct (map (\<lambda>r. (priority r, timestamp r, report_id r)) batch)"
      and m: "mset batch' = mset batch"
  proof -
    from d have "distinct batch"
      and i: "inj_on (\<lambda>r. (priority r, timestamp r, report_id r)) (set batch)"
      by (simp_all add: distinct_map)
    moreover from i have "inj_on rank_key (set batch)"
      by (auto simp: inj_on_def rank_key_def)
    ultimately show ?thesis
      unfolding prioritize_def using m by (intro sort_key_unique)
  qed
  from 1 2 3 4 show ?thesis by blast
qed

theorem prioritize_order_witness:
  "distinct (map (\<lambda>r. (priority r, timestamp r, report_id r))
      [\<lparr>report_id = ''b'', priority = 2, timestamp = 10\<rparr>,
       \<lparr>report_id = ''a'', priority = 2, timestamp = 10\<rparr>,
       \<lparr>report_id = ''c'', priority = 3, timestamp = 5\<rparr>,
       \<lparr>report_id = ''d'', priority = 2, timestamp = 20\<rparr>])
   \<and> prioritize
      [\<lparr>report_id = ''a'', priority = 2, timestamp = 10\<rparr>,
       \<lparr>report_id = ''d'', priority = 2, timestamp = 20\<rparr>,
       \<lparr>report_id = ''b'', priority = 2, timestamp = 10\<rparr>,
       \<lparr>report_id = ''c'', priority = 3, timestamp = 5\<rparr>]
     = prioritize
      [\<lparr>report_id = ''b'', priority = 2, timestamp = 10\<rparr>,
       \<lparr>report_id = ''a'', priority = 2, timestamp = 10\<rparr>,
       \<lparr>report_id = ''c'', priority = 3, timestamp = 5\<rparr>,
       \<lparr>report_id = ''d'', priority = 2, timestamp = 20\<rparr>]
   \<and> prioritize
      [\<lparr>report_id = ''b'', priority = 2, timestamp = 10\<rparr>,
       \<lparr>report_id = ''a'', priority = 2, timestamp = 10\<rparr>,
       \<lparr>report_id = ''c'', priority = 3, timestamp = 5\<rparr>,
       \<lparr>report_id = ''d'', priority = 2, timestamp = 20\<rparr>]
     = [\<lparr>report_id = ''c'', priority = 3, timestamp = 5\<rparr>,
        \<lparr>report_id = ''d'', priority = 2, timestamp = 20\<rparr>,
        \<lparr>report_id = ''a'', priority = 2, timestamp = 10\<rparr>,
        \<lparr>report_id = ''b'', priority = 2, timestamp = 10\<rparr>]"
proof -
  let ?x = "[\<lparr>report_id = ''b'', priority = 2, timestamp = 10\<rparr>,
       \<lparr>report_id = ''a'', priority = 2, timestamp = 10\<rparr>,
       \<lparr>report_id = ''c'', priority = 3, timestamp = 5\<rparr>,
       \<lparr>report_id = ''d'', priority = 2, timestamp = 20\<rparr>]"
  let ?y = "[\<lparr>report_id = ''a'', priority = 2, timestamp = 10\<rparr>,
       \<lparr>report_id = ''d'', priority = 2, timestamp = 20\<rparr>,
       \<lparr>report_id = ''b'', priority = 2, timestamp = 10\<rparr>,
       \<lparr>report_id = ''c'', priority = 3, timestamp = 5\<rparr>]"
  have d: "distinct (map (\<lambda>r. (priority r, timestamp r, report_id r)) ?x)" by simp
  have m: "mset ?y = mset ?x" by (simp add: add.commute add.left_commute)
  have v: "prioritize ?x = [\<lparr>report_id = ''c'', priority = 3, timestamp = 5\<rparr>,
        \<lparr>report_id = ''d'', priority = 2, timestamp = 20\<rparr>,
        \<lparr>report_id = ''a'', priority = 2, timestamp = 10\<rparr>,
        \<lparr>report_id = ''b'', priority = 2, timestamp = 10\<rparr>]"
    by (simp add: prioritize_def rank_key_def less_eq_prod_def less_prod_def
        less_eq_char_def less_char_def)
  have "prioritize ?y = prioritize ?x"
    using prioritize_order [of ?x ?y] d m by blast
  with d v show ?thesis by (simp only: simp_thms)
qed


section \<open>Properties of the rolling history\<close>

lemma keep_history_length: "length (keep_history h) \<le> 1000"
  by (simp add: keep_history_def)

lemma keep_history_eq: "keep_history h = drop (length h - 1000) h"
  by (simp add: keep_history_def)

lemma keep_history_append:
  "keep_history (keep_history h @ b) = keep_history (h @ b)"
proof (cases "length h > 1000")
  case False
  then show ?thesis by (simp add: keep_history_def)
next
  case True
  then have len: "length (drop (length h - 1000) h @ b) = 1000 + length b"
    by simp
  have "keep_history (keep_history h @ b) = drop (length b) (drop (length h - 1000) h @ b)"
    using True len by (simp add: keep_history_eq)
  also have "\<dots> = drop (length b + (length h - 1000)) h @ drop (length b - 1000) b"
    using True by simp
  also have "length b + (length h - 1000) = length h + length b - 1000"
    using True by simp
  also have "drop (length h + length b - 1000) h @ drop (length b - 1000) b
      = keep_history (h @ b)"
    using True by (simp add: keep_history_eq)
  finally show ?thesis .
qed

lemma history_foldl:
  "hazard_history d = keep_history h \<Longrightarrow>
   hazard_history (foldl (\<lambda>d r. collect_and_analyze_data r d) d runs)
     = keep_history (h @ concat (map appended runs))"
proof (induction runs arbitrary: d h)
  case Nil
  then show ?case by simp
next
  case (Cons r runs)
  have "hazard_history (collect_and_analyze_data r d) = keep_history (h @ appended r)"
    using Cons.prems by (cases r) (simp_all add: generate_mock_data_def keep_history_append)
  from Cons.IH [OF this] show ?case by simp
qed

text \<open>
  Claim C8. After any sequence of runs (each appending a batch, the mock batch, or
  nothing when the run failed) the history holds at most 1000 reports, and it is exactly
  the last 1000 (or all, if fewer) of everything appended so far in arrival order: the
  entries that leave are the oldest ones.
\<close>

theorem history_bounded_fifo:
  "length (hazard_history (after_runs runs)) \<le> 1000 \<and>
   hazard_history (after_runs runs)
     = drop (length (concat (map appended runs)) - 1000) (concat (map appended runs))"
proof -
  have "hazard_history (init_dashboard :: 'a dashboard) = keep_history []"
    by (simp add: init_dashboard_def keep_history_def)
  from history_foldl [OF this, of runs]
  have "hazard_history (after_runs runs) = keep_history (concat (map appended runs))"
    by (simp add: after_runs_def)
  then show ?thesis
    by (simp add: keep_history_length) (simp add: keep_history_eq)
qed

end
